theory Spec2Isabelle
  imports Main "HOL-Library.AList"
begin

section \<open>Protocol session (packages/core/src/page.js)\<close>

text \<open>
  A \<open>Page\<close> is one debugging session of a browser target. The model follows the
  single-threaded event loop: what a method does between two suspension points is one
  function on the session state. A promise is a number (its identity); settling it
  appends to the \<open>settled\<close> log, so that "settled once" can be read off the log.
  The transport (\<open>browser.send\<close>, in browser.js) is not part of these sources: the
  correlation id it returns is an argument of \<open>send\<close>, and what the session hands to
  it is appended to \<open>sent\<close>. It is taken to return the id without waiting, so that
  \<open>send\<close> registers its call before anything else reaches the session.
\<close>

subsection \<open>Values on the wire\<close>

datatype js_error = Error (message: string) | TypeError (message: string)

text \<open>\<open>Object.assign(error, { message })\<close>: the same error object with a new message.\<close>

fun assign_message :: "js_error \<Rightarrow> string \<Rightarrow> js_error" where
  "assign_message (Error _) m = Error m"
| "assign_message (TypeError _) m = TypeError m"

record cookie =
  cookie_name :: string
  cookie_url :: "string option"
  cookie_domain :: "string option"

text \<open>Parameters of requests and events, by the shapes this file reads or writes.\<close>

datatype params =
    NoParams
  | RawParams string
  | Navigate string
  | SetCookies "cookie list"
  | CallFunctionOn string "string list" "nat option"
  | CloseTarget string
  | FrameNavigated string
  | LifecycleEvent string string
  | ContextCreated nat string
  | ContextDestroyed nat

text \<open>
  The \<open>result\<close> of a response: \<open>errorText\<close> of \<open>Page.navigate\<close>; \<open>result.value\<close> and
  \<open>exceptionDetails.exception.description\<close> of \<open>Runtime.callFunctionOn\<close>.
\<close>

datatype result =
    NavigateResult "string option"
  | CallResult string "string option"
  | OtherResult string

record rpc_error =
  err_message :: string
  err_data :: "string option"

record message =
  msg_id :: "nat option"
  msg_method :: "string option"
  msg_params :: params
  msg_error :: "rpc_error option"
  msg_result :: result

record request =
  req_sessionId :: "string option"
  req_method :: string
  req_params :: params

datatype outcome = Resolved result | Rejected js_error

subsection \<open>Session state\<close>

text \<open>An entry of \<open>#callbacks\<close>: \<open>{ error, resolve, reject, method }\<close>.\<close>

record callback =
  cb_error :: js_error
  cb_method :: string
  cb_promise :: nat

text \<open>
  The listeners this file registers with \<open>on\<close>: the four of the constructor and the two
  one-shot watchers of \<open>goto\<close> (a watcher is an object of its own, numbered here).
\<close>

datatype listener =
    HandleExecutionContextCreated
  | HandleExecutionContextDestroyed
  | HandleExecutionContextsCleared
  | HandleTargetCrashed
  | FrameWatcher nat
  | LifecycleWatcher nat string

record page =
  callbacks :: "(nat \<times> callback) list"
  browser :: "cookie list option"
  sessionId :: string
  targetId :: string
  frameId :: "string option"
  contextId :: "nat option"
  closedReason :: "string option"
  frames :: "string set"
  parent :: "string option"
  listeners :: "(string \<times> listener) list"
  finished :: "nat list"
  next_handler :: nat
  sent :: "request list"
  settled :: "(nat \<times> outcome) list"
  next_promise :: nat
  emitted :: "(string option \<times> params) list"

text \<open>JavaScript truthiness of a value that is \<open>null\<close> or a string, and of an id.\<close>

fun truthy :: "string option \<Rightarrow> bool" where
  "truthy None = False"
| "truthy (Some s) = (s \<noteq> [])"

text \<open>A value that is \<open>null\<close> or a string, inside a template literal.\<close>

fun template :: "string option \<Rightarrow> string" where
  "template None = ''null''"
| "template (Some s) = s"

text \<open>
  The constructor, without the parent link (see \<open>new_Page\<close> below): the browser
  reference is held (only its cookies are read here), nothing is pending, and the four
  handlers are registered.
\<close>

definition init_page :: "cookie list \<Rightarrow> string \<Rightarrow> string \<Rightarrow> string option \<Rightarrow> page" where
  "init_page cookies sid tid par =
     \<lparr> callbacks = [], browser = Some cookies, sessionId = sid, targetId = tid,
       frameId = None, contextId = None, closedReason = None, frames = {},
       parent = par,
       listeners =
         [(''Runtime.executionContextCreated'', HandleExecutionContextCreated),
          (''Runtime.executionContextDestroyed'', HandleExecutionContextDestroyed),
          (''Runtime.executionContextsCleared'', HandleExecutionContextsCleared),
          (''Inspector.targetCrashed'', HandleTargetCrashed)],
       finished = [], next_handler = 0, sent = [], settled = [], next_promise = 0,
       emitted = [] \<rparr>"

subsection \<open>send\<close>

text \<open>
  \<open>send(method, params)\<close>, with \<open>i\<close> the id the transport returns. The promise it
  returns is number \<open>next_promise\<close>. A closed session rejects it at once; a session
  with no closed reason and no browser fails on \<open>this.browser.send\<close>.
\<close>

definition protocol_error :: "string \<Rightarrow> string \<Rightarrow> string" where
  "protocol_error method reason = ''Protocol error ('' @ method @ ''): '' @ reason"

definition send :: "page \<Rightarrow> string \<Rightarrow> params \<Rightarrow> nat \<Rightarrow> page" where
  "send p method ps i =
     (let error = Error [];
          k = next_promise p;
          p = p\<lparr>next_promise := Suc k\<rparr>
      in if truthy (closedReason p) then
           p\<lparr>settled := settled p @
                [(k, Rejected (assign_message error
                       (protocol_error method (template (closedReason p)))))]\<rparr>
         else (case browser p of
             None \<Rightarrow>
               p\<lparr>settled := settled p @
                    [(k, Rejected (TypeError ''Cannot read properties of null''))]\<rparr>
           | Some _ \<Rightarrow>
               p\<lparr>sent := sent p @
                    [\<lparr>req_sessionId = Some (sessionId p), req_method = method,
                      req_params = ps\<rparr>],
                 callbacks := AList.update i
                    \<lparr>cb_error = error, cb_method = method, cb_promise = k\<rparr>
                    (callbacks p)\<rparr>))"

subsection \<open>Events and listeners\<close>

text \<open>\<open>close()\<close>: asks the browser to close the target, unless the session is detached.\<close>

definition close :: "page \<Rightarrow> page" where
  "close p =
     (case browser p of
        None \<Rightarrow> p
      | Some _ \<Rightarrow>
          p\<lparr>sent := sent p @
               [\<lparr>req_sessionId = None, req_method = ''Target.closeTarget'',
                 req_params = CloseTarget (targetId p)\<rparr>]\<rparr>)"

text \<open>\<open>this.off(name, handler)\<close>.\<close>

definition off :: "string \<Rightarrow> listener \<Rightarrow> page \<Rightarrow> page" where
  "off name l p = p\<lparr>listeners := removeAll (name, l) (listeners p)\<rparr>"

text \<open>
  One listener called with the event's parameters. A watcher whose condition holds
  sets its \<open>finished\<close> flag and detaches itself. Parameters of another shape than the
  event's never satisfy a condition.
\<close>

fun call_listener :: "string \<Rightarrow> listener \<Rightarrow> params \<Rightarrow> page \<Rightarrow> page" where
  "call_listener name HandleExecutionContextCreated e p =
     (case e of
        ContextCreated cid fid \<Rightarrow>
          if frameId p = Some fid then p\<lparr>contextId := Some cid\<rparr> else p
      | _ \<Rightarrow> p)"
| "call_listener name HandleExecutionContextDestroyed e p =
     (case e of
        ContextDestroyed cid \<Rightarrow>
          if contextId p = Some cid then p\<lparr>contextId := None\<rparr> else p
      | _ \<Rightarrow> p)"
| "call_listener name HandleExecutionContextsCleared e p = p\<lparr>contextId := None\<rparr>"
| "call_listener name HandleTargetCrashed e p =
     close (p\<lparr>closedReason := Some ''Page crashed!''\<rparr>)"
| "call_listener name (FrameWatcher h) e p =
     (case e of
        FrameNavigated fid \<Rightarrow>
          if frameId p = Some fid
          then off name (FrameWatcher h) (p\<lparr>finished := h # finished p\<rparr>)
          else p
      | _ \<Rightarrow> p)"
| "call_listener name (LifecycleWatcher h waitUntil) e p =
     (case e of
        LifecycleEvent fid nm \<Rightarrow>
          if frameId p = Some fid \<and> nm = waitUntil
          then off name (LifecycleWatcher h waitUntil) (p\<lparr>finished := h # finished p\<rparr>)
          else p
      | _ \<Rightarrow> p)"

text \<open>
  \<open>emit(name, params)\<close> of the event emitter: the listeners registered under the name
  when the event is emitted are called in registration order. \<open>emitted\<close> keeps the
  trace of the calls to \<open>emit\<close>. (The protocol has no event named \<open>error\<close>, which the
  emitter would treat apart.)
\<close>

fun call_listeners :: "string \<Rightarrow> listener list \<Rightarrow> params \<Rightarrow> page \<Rightarrow> page" where
  "call_listeners name [] e p = p"
| "call_listeners name (l # ls) e p = call_listeners name ls e (call_listener name l e p)"

definition emit :: "page \<Rightarrow> string option \<Rightarrow> params \<Rightarrow> page" where
  "emit p name e =
     (let p' = p\<lparr>emitted := emitted p @ [(name, e)]\<rparr>
      in case name of
           None \<Rightarrow> p'
         | Some n \<Rightarrow>
             call_listeners n (map snd (filter (\<lambda>x. fst x = n) (listeners p))) e p')"

subsection \<open>Inbound dispatch and close\<close>

text \<open>The rejection message of an error response: the remote message, then its data.\<close>

definition response_error :: "callback \<Rightarrow> rpc_error \<Rightarrow> js_error" where
  "response_error cb e =
     assign_message (cb_error cb)
       (protocol_error (cb_method cb) (err_message e) @
        (case err_data e of Some d \<Rightarrow> '': '' @ d | None \<Rightarrow> []))"

text \<open>
  \<open>data.id && this.#callbacks.has(data.id)\<close>: the pending call a message answers,
  if its id is there, is not zero and is a key of the map.
\<close>

definition pending_call :: "page \<Rightarrow> nat option \<Rightarrow> (nat \<times> callback) option" where
  "pending_call p mid =
     (case mid of
        None \<Rightarrow> None
      | Some i \<Rightarrow> if i = 0 then None else map_option (Pair i) (map_of (callbacks p) i))"

definition handleMessage :: "page \<Rightarrow> message \<Rightarrow> page" where
  "handleMessage p data =
     (case pending_call p (msg_id data) of
        Some (i, cb) \<Rightarrow>
          (let p = p\<lparr>callbacks := AList.delete i (callbacks p)\<rparr>
           in case msg_error data of
                Some e \<Rightarrow>
                  p\<lparr>settled := settled p @ [(cb_promise cb, Rejected (response_error cb e))]\<rparr>
              | None \<Rightarrow>
                  p\<lparr>settled := settled p @ [(cb_promise cb, Resolved (msg_result data))]\<rparr>)
      | None \<Rightarrow> emit p (msg_method data) (msg_params data))"

text \<open>
  \<open>_handleClose()\<close> on the session itself: the reason defaults, every pending call is
  rejected in the order of the map, the map is cleared and the browser is dropped.
\<close>

definition close_reason :: "page \<Rightarrow> string" where
  "close_reason p =
     (case closedReason p of
        None \<Rightarrow> ''Page closed.''
      | Some r \<Rightarrow> if r = [] then ''Page closed.'' else r)"

definition reject_pending :: "string \<Rightarrow> nat \<times> callback \<Rightarrow> nat \<times> outcome" where
  "reject_pending reason e =
     (cb_promise (snd e),
      Rejected (assign_message (cb_error (snd e))
        (protocol_error (cb_method (snd e)) reason)))"

definition close_session :: "page \<Rightarrow> page" where
  "close_session p =
     p\<lparr>closedReason := Some (close_reason p),
       settled := settled p @ map (reject_pending (close_reason p)) (callbacks p),
       callbacks := [],
       browser := None\<rparr>"





subsection \<open>Traces of one session\<close>

text \<open>
  What reaches the pending calls of a session: a call of \<open>send\<close> (every other method
  of the class goes through it), an inbound message, and the close of the session.
\<close>

datatype action = Send string params nat | Message message | Close

fun step :: "page \<Rightarrow> action \<Rightarrow> page" where
  "step p (Send method ps i) = send p method ps i"
| "step p (Message data) = handleMessage p data"
| "step p Close = close_session p"

fun run :: "page \<Rightarrow> action list \<Rightarrow> page" where
  "run p [] = p"
| "run p (a # as) = run (step p a) as"

subsection \<open>eval\<close>

text \<open>
  \<open>eval(fn, ...args)\<close>. Whether \<open>new Function(text)\<close> accepts a text is decided by the
  JavaScript engine: \<open>parses\<close> is that test, given from outside. \<open>waitFor\<close> is the source
  text of the helper of utils.js that the wrapper embeds.
\<close>

definition startsWith :: "string \<Rightarrow> string \<Rightarrow> bool" where
  "startsWith s prefix = (take (length prefix) s = prefix)"

text \<open>The shorthand rewrite: \<open>async name() {}\<close> or \<open>name() {}\<close> into a function expression.\<close>

definition rewrite_shorthand :: "string \<Rightarrow> string" where
  "rewrite_shorthand fnbody =
     (if startsWith fnbody ''async '' then ''async function'' @ drop 5 fnbody
      else ''function '' @ fnbody)"

definition serialize :: "(string \<Rightarrow> bool) \<Rightarrow> string \<Rightarrow> js_error + string" where
  "serialize parses fnbody =
     (if parses (''('' @ fnbody @ '')'') then Inr fnbody
      else if parses (''('' @ rewrite_shorthand fnbody @ '')'')
        then Inr (rewrite_shorthand fnbody)
      else Inl (Error ''The provided function is not serializable''))"

definition withPercyHelpers :: "string \<Rightarrow> string \<Rightarrow> string" where
  "withPercyHelpers waitFor fnbody =
     ''function withPercyHelpers() {'' @
       (''return ('' @ fnbody @ '')({'' @ (''waitFor: '' @ waitFor) @ ''}, ...arguments)'') @
     ''}''"

text \<open>
  The first half of \<open>eval\<close>, up to the \<open>await\<close>: an error thrown before anything is
  sent, or the promise of the call that was sent; and the session after it.
\<close>

definition eval_call ::
  "(string \<Rightarrow> bool) \<Rightarrow> string \<Rightarrow> page \<Rightarrow> string \<Rightarrow> string list \<Rightarrow> nat \<Rightarrow> (js_error + nat) \<times> page" where
  "eval_call parses waitFor p fn args i =
     (case serialize parses fn of
        Inl e \<Rightarrow> (Inl e, p)
      | Inr fnbody \<Rightarrow>
          (Inr (next_promise p),
           send p ''Runtime.callFunctionOn''
             (CallFunctionOn (withPercyHelpers waitFor fnbody) args (contextId p)) i))"

text \<open>
  The second half, on the outcome of the call. What \<open>eval\<close> throws is an error object
  (a rejected call) or the bare description of the exception of the page.
\<close>

datatype thrown = ThrownError js_error | ThrownValue string

fun eval_result :: "outcome \<Rightarrow> thrown + string" where
  "eval_result (Rejected e) = Inl (ThrownError e)"
| "eval_result (Resolved (CallResult v (Some description))) = Inl (ThrownValue description)"
| "eval_result (Resolved (CallResult v None)) = Inr v"
| "eval_result (Resolved _) =
     Inl (ThrownError (TypeError ''Cannot read properties of undefined''))"

subsection \<open>goto\<close>

definition PAGE_TIMEOUT :: nat where
  "PAGE_TIMEOUT = 30000"

text \<open>
  What \<open>goto\<close> is given: the url and \<open>waitUntil\<close>; from the transport, the ids of the
  two calls of \<open>navigate\<close>; \<open>hostname(url)\<close> of utils.js; and of \<open>waitFor\<close> of utils.js,
  the interval between two polls and the message of its timeout error.
\<close>

record goto_config =
  g_url :: string
  g_waitUntil :: string
  g_cookies_id :: nat
  g_navigate_id :: nat
  g_hostname :: string
  g_interval :: nat
  g_timeout_message :: string

text \<open>The two one-shot watchers, registered in this order; \<open>h\<close> numbers the first.\<close>

definition install_watchers :: "string \<Rightarrow> page \<Rightarrow> page" where
  "install_watchers waitUntil p =
     p\<lparr>listeners := listeners p @
          [(''Page.frameNavigated'', FrameWatcher (next_handler p)),
           (''Page.lifecycleEvent'', LifecycleWatcher (Suc (next_handler p)) waitUntil)],
       next_handler := Suc (Suc (next_handler p))\<rparr>"

text \<open>The cookies sent before the navigation: a cookie with no url gets a default domain.\<close>

definition default_domain :: "string \<Rightarrow> cookie \<Rightarrow> cookie" where
  "default_domain defaultDomain c =
     (if \<not> truthy (cookie_url c) \<and> \<not> truthy (cookie_domain c)
      then c\<lparr>cookie_domain := Some defaultDomain\<rparr> else c)"

text \<open>
  \<open>navigate()\<close> between its suspension points: waiting for the answer to
  \<open>Network.setCookies\<close>, waiting for the answer to \<open>Page.navigate\<close>, or returned.
\<close>

datatype nav_state = AwaitCookies nat | AwaitNavigate nat | Navigated

definition errorText :: "result \<Rightarrow> string option" where
  "errorText res = (case res of NavigateResult t \<Rightarrow> t | _ \<Rightarrow> None)"

definition navigate_answer :: "page \<Rightarrow> nat \<Rightarrow> (js_error + nav_state) \<times> page" where
  "navigate_answer p k =
     (case map_of (settled p) k of
        None \<Rightarrow> (Inr (AwaitNavigate k), p)
      | Some (Rejected e) \<Rightarrow> (Inl e, p)
      | Some (Resolved res) \<Rightarrow>
          if truthy (errorText res) then (Inl (Error (template (errorText res))), p)
          else (Inr Navigated, p))"

definition send_navigate :: "goto_config \<Rightarrow> page \<Rightarrow> (js_error + nav_state) \<times> page" where
  "send_navigate cfg p =
     navigate_answer (send p ''Page.navigate'' (Navigate (g_url cfg)) (g_navigate_id cfg))
       (next_promise p)"

definition navigate_progress ::
  "goto_config \<Rightarrow> page \<Rightarrow> nav_state \<Rightarrow> (js_error + nav_state) \<times> page" where
  "navigate_progress cfg p nav =
     (case nav of
        Navigated \<Rightarrow> (Inr Navigated, p)
      | AwaitNavigate k \<Rightarrow> navigate_answer p k
      | AwaitCookies k \<Rightarrow>
          (case map_of (settled p) k of
             None \<Rightarrow> (Inr (AwaitCookies k), p)
           | Some (Rejected e) \<Rightarrow> (Inl e, p)
           | Some (Resolved res) \<Rightarrow> send_navigate cfg p))"

definition navigate :: "goto_config \<Rightarrow> page \<Rightarrow> (js_error + nav_state) \<times> page" where
  "navigate cfg p =
     (case browser p of
        None \<Rightarrow> (Inl (TypeError ''Cannot read properties of null''), p)
      | Some cookies \<Rightarrow>
          if cookies \<noteq> [] then
            navigate_progress cfg
              (send p ''Network.setCookies''
                 (SetCookies (map (default_domain (g_hostname cfg)) cookies)) (g_cookies_id cfg))
              (AwaitCookies (next_promise p))
          else send_navigate cfg p)"

text \<open>The condition polled by \<open>waitFor\<close>: it throws on a closed session.\<close>

definition goto_condition :: "page \<Rightarrow> nat \<Rightarrow> js_error + bool" where
  "goto_condition p h =
     (if truthy (closedReason p) then Inl (Error (template (closedReason p)))
      else Inr (h \<in> set (finished p) \<and> Suc h \<in> set (finished p)))"

text \<open>
  Modelled from the spec: \<open>waitFor\<close> of utils.js is not in these sources. The spec gives
  it as "poll at short fixed intervals until both watchers are finished, the session
  closes (fail with closedReason), or a fixed hard timeout elapses (fail with a timeout
  error)". One poll, after \<open>elapsed\<close> milliseconds: the time bound, then the condition.
\<close>

definition waitFor_poll :: "string \<Rightarrow> nat \<Rightarrow> nat \<Rightarrow> js_error + bool \<Rightarrow> js_error + bool" where
  "waitFor_poll timeout_message timeout elapsed condition =
     (if timeout \<le> elapsed then Inl (Error timeout_message) else condition)"

text \<open>The \<open>catch\<close> block: both watchers are detached and the message is prefixed.\<close>

definition goto_catch :: "goto_config \<Rightarrow> nat \<Rightarrow> page \<Rightarrow> js_error \<Rightarrow> js_error \<times> page" where
  "goto_catch cfg h p error =
     (assign_message error (''Navigation failed: '' @ message error),
      off ''Page.lifecycleEvent'' (LifecycleWatcher (Suc h) (g_waitUntil cfg))
        (off ''Page.frameNavigated'' (FrameWatcher h) p))"

text \<open>
  A \<open>goto\<close> under way: \<open>Promise.all\<close> waits for \<open>navigate()\<close> and for \<open>waitFor\<close>, and
  rejects with the first of them that fails. \<open>Pending\<close>: the session, where \<open>navigate()\<close>
  stands, whether \<open>waitFor\<close> still polls, and the time it has polled for. \<open>Done\<close>: the
  error thrown or the normal return, and the session then.
\<close>

record goto_state =
  g_page :: page
  g_nav :: nav_state
  g_waiting :: bool
  g_elapsed :: nat

datatype goto_status = Pending goto_state | Done "js_error + unit" page

definition goto_fail :: "goto_config \<Rightarrow> nat \<Rightarrow> page \<Rightarrow> js_error \<Rightarrow> goto_status" where
  "goto_fail cfg h p error =
     Done (Inl (fst (goto_catch cfg h p error))) (snd (goto_catch cfg h p error))"

definition goto_settle ::
  "goto_config \<Rightarrow> nat \<Rightarrow> goto_state \<Rightarrow> (js_error + nav_state) \<times> page \<Rightarrow> goto_status" where
  "goto_settle cfg h st r =
     (case fst r of
        Inl e \<Rightarrow> goto_fail cfg h (snd r) e
      | Inr nav \<Rightarrow>
          if nav = Navigated \<and> \<not> g_waiting st then Done (Inr ()) (snd r)
          else Pending (st\<lparr>g_page := snd r, g_nav := nav\<rparr>))"

text \<open>
  What happens to a pending \<open>goto\<close>: something reaches the session (and \<open>navigate()\<close>
  goes on if its call was answered), or the timer of \<open>waitFor\<close> fires.
\<close>

datatype goto_event = Act action | Poll

definition goto_poll :: "goto_config \<Rightarrow> nat \<Rightarrow> goto_state \<Rightarrow> goto_status" where
  "goto_poll cfg h st =
     (if \<not> g_waiting st then Pending st
      else case waitFor_poll (g_timeout_message cfg) PAGE_TIMEOUT (g_elapsed st)
                  (goto_condition (g_page st) h) of
             Inl e \<Rightarrow> goto_fail cfg h (g_page st) e
           | Inr True \<Rightarrow>
               if g_nav st = Navigated then Done (Inr ()) (g_page st)
               else Pending (st\<lparr>g_waiting := False\<rparr>)
           | Inr False \<Rightarrow> Pending (st\<lparr>g_elapsed := g_elapsed st + g_interval cfg\<rparr>))"

fun goto_step :: "goto_config \<Rightarrow> nat \<Rightarrow> goto_state \<Rightarrow> goto_event \<Rightarrow> goto_status" where
  "goto_step cfg h st (Act a) =
     goto_settle cfg h st (navigate_progress cfg (step (g_page st) a) (g_nav st))"
| "goto_step cfg h st Poll = goto_poll cfg h st"

fun goto_run :: "goto_config \<Rightarrow> nat \<Rightarrow> goto_status \<Rightarrow> goto_event list \<Rightarrow> goto_status" where
  "goto_run cfg h s [] = s"
| "goto_run cfg h (Done r p) (ev # evs) = Done r p"
| "goto_run cfg h (Pending st) (ev # evs) = goto_run cfg h (goto_step cfg h st ev) evs"

text \<open>\<open>goto(url, { waitUntil })\<close> followed by the events \<open>evs\<close>.\<close>

definition goto_begin :: "goto_config \<Rightarrow> page \<Rightarrow> goto_status" where
  "goto_begin cfg p =
     goto_settle cfg (next_handler p)
       \<lparr>g_page = install_watchers (g_waitUntil cfg) p, g_nav = Navigated,
         g_waiting = True, g_elapsed = 0\<rparr>
       (navigate cfg (install_watchers (g_waitUntil cfg) p))"

definition goto :: "goto_config \<Rightarrow> page \<Rightarrow> goto_event list \<Rightarrow> goto_status" where
  "goto cfg p evs = goto_run cfg (next_handler p) (goto_begin cfg p) evs"



subsection \<open>Invariants of a session\<close>

text \<open>The promises of the pending calls, in the order of the map.\<close>

definition proms :: "(nat \<times> callback) list \<Rightarrow> nat list" where
  "proms cs = map (\<lambda>e. cb_promise (snd e)) cs"

definition promise_inv :: "page \<Rightarrow> bool" where
  "promise_inv p \<longleftrightarrow>
     distinct (map fst (callbacks p)) \<and>
     distinct (proms (callbacks p) @ map fst (settled p)) \<and>
     (\<forall>k \<in> set (proms (callbacks p) @ map fst (settled p)). k < next_promise p)"


definition closed :: "page \<Rightarrow> bool" where
  "closed p \<longleftrightarrow> browser p = None \<and> truthy (closedReason p) \<and> callbacks p = []"

definition reason_inv :: "page \<Rightarrow> bool" where
  "reason_inv p \<longleftrightarrow> closedReason p \<noteq> Some [] \<and> (browser p = None \<longrightarrow> closed p)"


subsection \<open>Concrete sessions and messages\<close>








definition c3_open :: page where
  "c3_open = init_page [] ''session'' ''target'' None"

text \<open>A parser that accepts two function expressions and nothing else.\<close>

definition c8_parses :: "string \<Rightarrow> bool" where
  "c8_parses s = (s = ''(function foo() {})'' \<or> s = ''(async function foo() {})'')"

subsection \<open>Invariants of a goto\<close>



text \<open>A \<open>goto\<close> with no cookies, on a fresh session, polling every 30 seconds.\<close>

definition c4_config :: goto_config where
  "c4_config = \<lparr>g_url = ''http://localhost'', g_waitUntil = ''load'', g_cookies_id = 1,
     g_navigate_id = 2, g_hostname = ''localhost'', g_interval = 30000,
     g_timeout_message = ''timed out''\<rparr>"


fun outcome_of :: "goto_status \<Rightarrow> (js_error + unit) option" where
  "outcome_of (Pending st) = None"
| "outcome_of (Done r p) = Some r"

fun page_of :: "goto_status \<Rightarrow> page" where
  "page_of (Pending st) = g_page st"
| "page_of (Done r p) = p"

text \<open>
  A session whose frame is \<open>F\<close>, the two events a \<open>goto\<close> waits for, and the answer
  to its \<open>Page.navigate\<close>.
\<close>

definition c4_framed :: page where
  "c4_framed = (init_page [] ''session'' ''target'' None)\<lparr>frameId := Some ''F''\<rparr>"

definition c4_navigated :: message where
  "c4_navigated =
     \<lparr>msg_id = None, msg_method = Some ''Page.frameNavigated'',
       msg_params = FrameNavigated ''F'', msg_error = None, msg_result = OtherResult []\<rparr>"

definition c4_loaded :: message where
  "c4_loaded =
     \<lparr>msg_id = None, msg_method = Some ''Page.lifecycleEvent'',
       msg_params = LifecycleEvent ''F'' ''load'', msg_error = None,
       msg_result = OtherResult []\<rparr>"

definition c4_answer :: message where
  "c4_answer =
     \<lparr>msg_id = Some 2, msg_method = None, msg_params = NoParams, msg_error = None,
       msg_result = NavigateResult None\<rparr>"

section \<open>Orchestrator (packages/core/src/percy.js)\<close>

subsection \<open>The queue\<close>

text \<open>
  Modelled from the spec: the class \<open>Queue\<close> (queue.js) is not in these sources. The
  spec gives its contract: \<open>push\<close> enqueues a task under a key, unless the key is
  already queued or running, and ahead of the others when a priority is given; a
  closed queue accepts no new task; \<open>clear\<close> removes the tasks not yet started whose
  key matches; \<open>stop\<close> and \<open>run\<close> pause and resume the dispatch; \<open>close\<close> stops accepting
  tasks and returns those still queued or running, and with \<open>force\<close> also cancels
  them. A task is its key and whether it has started.
\<close>

record queue =
  q_closed :: bool
  q_running :: bool
  q_concurrency :: nat
  q_tasks :: "(string \<times> bool) list"

definition new_Queue :: queue where
  "new_Queue = \<lparr>q_closed = False, q_running = True, q_concurrency = 5, q_tasks = []\<rparr>"

definition q_push :: "queue \<Rightarrow> string \<Rightarrow> nat option \<Rightarrow> queue" where
  "q_push q key priority =
     (if q_closed q \<or> key \<in> fst ` set (q_tasks q) then q
      else case priority of
             None \<Rightarrow> q\<lparr>q_tasks := q_tasks q @ [(key, False)]\<rparr>
           | Some n \<Rightarrow> q\<lparr>q_tasks := (key, False) # q_tasks q\<rparr>)"

definition q_clear :: "queue \<Rightarrow> string \<Rightarrow> queue" where
  "q_clear q key =
     q\<lparr>q_tasks := filter (\<lambda>t. snd t \<or> \<not> startsWith (fst t) key) (q_tasks q)\<rparr>"

definition q_stop :: "queue \<Rightarrow> queue" where
  "q_stop q = q\<lparr>q_running := False\<rparr>"

definition q_run :: "queue \<Rightarrow> queue" where
  "q_run q = q\<lparr>q_running := True\<rparr>"

definition q_close :: "queue \<Rightarrow> bool \<Rightarrow> queue" where
  "q_close q force = q\<lparr>q_closed := True, q_tasks := (if force then [] else q_tasks q)\<rparr>"

text \<open>
  Modelled from the spec: how the queue runs its tasks is not in these sources. The
  dispatch of a queued task ("maximum number of tasks the queue may run at once;
  enforced at dispatch time"; a paused queue dispatches none), and the end of a started
  one. Neither happens to a task that is not there: a cancelled task never ends.
\<close>

definition q_dispatch :: "queue \<Rightarrow> string \<Rightarrow> queue option" where
  "q_dispatch q key =
     (if q_running q \<and> (key, False) \<in> set (q_tasks q) \<and>
         length (filter snd (q_tasks q)) < q_concurrency q
      then Some (q\<lparr>q_tasks := map (\<lambda>t. if t = (key, False) then (key, True) else t) (q_tasks q)\<rparr>)
      else None)"

definition q_started :: "queue \<Rightarrow> string \<Rightarrow> bool" where
  "q_started q key = ((key, True) \<in> set (q_tasks q))"

definition q_finish :: "queue \<Rightarrow> string \<Rightarrow> queue" where
  "q_finish q key = q\<lparr>q_tasks := removeAll (key, True) (q_tasks q)\<rparr>"

definition force_closed :: "queue \<Rightarrow> bool" where
  "force_closed q = (q_closed q \<and> q_tasks q = [])"

subsection \<open>State of the orchestrator\<close>

record build =
  build_id :: string
  build_number :: string
  build_url :: string
  build_failed :: bool

datatype log_entry =
    LogInfo string
  | LogWarn string
  | LogError string
  | LogProgress string nat bool

text \<open>Calls to the server, the browser and the client, which are not in these sources.\<close>

datatype effect = ServerClose | BrowserClose | FinalizeBuild string | SendSnapshot string

text \<open>
  Where a \<open>stop()\<close> under way is suspended: not at all, in \<open>await this.#snapshots.empty\<close>,
  or in \<open>await this.#uploads.empty\<close>.
\<close>

datatype stop_phase = NotDraining | DrainSnapshots | DrainUploads

record percy =
  readyState :: "nat option"
  deferUploads :: bool
  skipUploads :: bool
  server :: bool
  build :: "build option"
  uploads :: queue
  snapshots :: queue
  stopping :: stop_phase
  logged :: "log_entry list"
  effects :: "effect list"
  thrown :: "js_error list"

text \<open>The constructor: \<open>deferUploads\<close> is \<open>skipUploads || deferUploads\<close>, and pauses the uploads.\<close>

definition new_Percy :: "bool \<Rightarrow> bool \<Rightarrow> bool \<Rightarrow> nat option \<Rightarrow> percy" where
  "new_Percy defer skip srv concurrency =
     \<lparr>readyState = None, deferUploads = (skip \<or> defer), skipUploads = skip, server = srv,
       build = None,
       uploads = (if skip \<or> defer then q_stop new_Queue else new_Queue),
       snapshots = (case concurrency of
                      None \<Rightarrow> new_Queue
                    | Some c \<Rightarrow> if c = 0 then new_Queue else new_Queue\<lparr>q_concurrency := c\<rparr>),
       stopping = NotDraining, logged = [], effects = [], thrown = []\<rparr>"

text \<open>\<open>close()\<close> of the orchestrator: both queues are closed with force.\<close>

definition percy_close :: "percy \<Rightarrow> percy" where
  "percy_close p =
     p\<lparr>snapshots := q_close (snapshots p) True, uploads := q_close (uploads p) True\<rparr>"

text \<open>Closing the server, if there is one, and the browser.\<close>

definition teardown :: "percy \<Rightarrow> percy" where
  "teardown p =
     p\<lparr>effects := effects p @ (if server p then [ServerClose] else []) @ [BrowserClose]\<rparr>"

subsection \<open>start\<close>

text \<open>
  \<open>start()\<close> up to its first \<open>await\<close>: nothing when the state is not \<open>null\<close>; else the
  state becomes 0 and the build task is pushed first in the uploads.
\<close>

definition start :: "percy \<Rightarrow> percy" where
  "start p =
     (if readyState p \<noteq> None then p
      else p\<lparr>readyState := Some 0,
             uploads := q_push (uploads p) ''build/create'' (Some 0)\<rparr>)"

text \<open>
  The end of \<open>start()\<close>, once the browser is launched and the server listens: the state
  becomes 1. Or its \<open>catch\<close> block, on the error of the build, the launch or the server:
  server and browser are closed, the state becomes 3 and the error is thrown again,
  reworded when its code is \<open>EADDRINUSE\<close>.
\<close>

definition start_done :: "percy \<Rightarrow> percy" where
  "start_done p =
     p\<lparr>logged := logged p @ [LogInfo ''Percy has started!''], readyState := Some 1\<rparr>"

definition start_catch :: "percy \<Rightarrow> string \<Rightarrow> js_error \<Rightarrow> percy" where
  "start_catch p code error =
     (teardown p)\<lparr>readyState := Some 3,
       thrown := thrown p @
         [if code = ''EADDRINUSE''
          then Error ''Percy is already running or the port is in use'' else error]\<rparr>"

subsection \<open>stop\<close>

text \<open>
  The last part of \<open>stop()\<close>: server and browser are closed, the build is finalized
  unless it failed or was never created, and the state becomes 3.
\<close>

definition stop_finish :: "percy \<Rightarrow> percy" where
  "stop_finish p =
     (let p = teardown p;
          p = (case build p of
                 None \<Rightarrow> p\<lparr>logged := logged p @ [LogWarn ''Build not created'']\<rparr>
               | Some b \<Rightarrow>
                   if build_failed b
                   then p\<lparr>logged := logged p @
                          [LogWarn (''Build #'' @ build_number b @ '' failed: '' @ build_url b)]\<rparr>
                   else p\<lparr>effects := effects p @ [FinalizeBuild (build_id b)],
                          logged := logged p @
                          [LogInfo (''Finalized build #'' @ build_number b @ '': '' @ build_url b)]\<rparr>)
      in p\<lparr>stopping := NotDraining, readyState := Some 3\<rparr>)"

text \<open>
  The middle part: unless uploads are skipped, the uploads are resumed and closed, and
  if tasks are left \<open>stop()\<close> waits for them.
\<close>

definition stop_uploads :: "percy \<Rightarrow> percy" where
  "stop_uploads p =
     (if \<not> skipUploads p then
        (let p = p\<lparr>uploads := q_close (q_run (uploads p)) False\<rparr>
         in if length (q_tasks (uploads p)) \<noteq> 0 then p\<lparr>stopping := DrainUploads\<rparr>
            else stop_finish p)
      else stop_finish p)"

text \<open>
  \<open>stop(force)\<close> up to its first \<open>await\<close>. Nothing when the state is \<open>null\<close>, 0 or past 2;
  with \<open>force\<close> the queues are closed at once; nothing more when the state is 2; else
  the state becomes 2, the snapshots are closed, and if tasks are left \<open>stop()\<close>
  waits for them.
\<close>

definition falsy_state :: "nat option \<Rightarrow> bool" where
  "falsy_state s = (s = None \<or> s = Some 0)"

definition stop :: "percy \<Rightarrow> bool \<Rightarrow> percy" where
  "stop p force =
     (if falsy_state (readyState p) \<or> (case readyState p of Some n \<Rightarrow> 2 < n | None \<Rightarrow> False)
      then p
      else
        (let p = (if force then percy_close p else p)
         in if readyState p = Some 2 then p
            else
              (let p = p\<lparr>readyState := Some 2\<rparr>;
                   p = (if force then p\<lparr>logged := logged p @ [LogInfo ''Stopping percy...'']\<rparr>
                        else p);
                   p = p\<lparr>snapshots := q_close (snapshots p) False\<rparr>
               in if length (q_tasks (snapshots p)) \<noteq> 0 then p\<lparr>stopping := DrainSnapshots\<rparr>
                  else stop_uploads p)))"

text \<open>
  Modelled from the spec: \<open>empty(onProgress)\<close> of the queue "resolves once the queue
  fully drains, invoking onProgress(remainingCount) as each task completes". A
  \<open>stop()\<close> that waits for a queue goes on when that queue has no task left.
\<close>

definition stop_resume :: "percy \<Rightarrow> percy" where
  "stop_resume p =
     (case stopping p of
        NotDraining \<Rightarrow> p
      | DrainSnapshots \<Rightarrow> if q_tasks (snapshots p) = [] then stop_uploads p else p
      | DrainUploads \<Rightarrow> if q_tasks (uploads p) = [] then stop_finish p else p)"

text \<open>
  The progress callbacks that \<open>stop()\<close> hands to \<open>empty\<close>, called with the number of
  tasks left when a task of the queue it waits for has ended.
\<close>

definition progress :: "string \<Rightarrow> nat \<Rightarrow> log_entry" where
  "progress verb len = LogProgress verb len (len \<noteq> 0)"

definition snapshot_finished :: "percy \<Rightarrow> string \<Rightarrow> percy" where
  "snapshot_finished p key =
     (if q_started (snapshots p) key then
        (let p = p\<lparr>snapshots := q_finish (snapshots p) key\<rparr>
         in if stopping p = DrainSnapshots
            then p\<lparr>logged := logged p @
                   [progress ''Processing'' (length (q_tasks (snapshots p)))]\<rparr>
            else p)
      else p)"

definition upload_finished :: "percy \<Rightarrow> string \<Rightarrow> percy" where
  "upload_finished p key =
     (if q_started (uploads p) key then
        (let p = p\<lparr>uploads := q_finish (uploads p) key\<rparr>
         in if stopping p = DrainUploads
            then p\<lparr>logged := logged p @
                   [progress ''Uploading'' (length (q_tasks (uploads p)))]\<rparr>
            else p)
      else p)"

subsection \<open>snapshot and the upload task\<close>

text \<open>
  \<open>snapshot(options)\<close>, of which only the name is kept: it throws unless the state
  is 1; else a pending upload of that name is cleared and the capture task is pushed.
\<close>

definition snapshot :: "percy \<Rightarrow> string \<Rightarrow> js_error + percy" where
  "snapshot p name =
     (if readyState p \<noteq> Some 1 then Inl (Error ''Not running'')
      else Inr (p\<lparr>uploads := q_clear (uploads p) (''upload/'' @ name),
                 snapshots := q_push (snapshots p) (''snapshot/'' @ name) None\<rparr>))"

text \<open>\<open>_scheduleUpload(name, conf, resources)\<close>: the upload task is pushed.\<close>

definition scheduleUpload :: "percy \<Rightarrow> string \<Rightarrow> percy" where
  "scheduleUpload p name = p\<lparr>uploads := q_push (uploads p) (''upload/'' @ name) None\<rparr>"

text \<open>
  The error of \<open>client.sendSnapshot\<close>: its text and, when the service answered, the
  status and the errors of the body, each with \<open>source.pointer\<close> and \<open>detail\<close>.
\<close>

record api_error =
  pointer :: "string option"
  detail :: "string option"

record response =
  status :: nat
  errors :: "api_error list"

record upload_error =
  ue_text :: string
  ue_response :: "response option"

text \<open>\<open>failed\<close> of the \<open>catch\<close> block: the first error of a 422 that points at the build.\<close>

definition build_failure :: "upload_error \<Rightarrow> api_error option" where
  "build_failure error =
     (case ue_response error of
        None \<Rightarrow> None
      | Some r \<Rightarrow>
          if status r = 422
          then find (\<lambda>e. pointer e = Some ''/data/attributes/build'') (errors r)
          else None)"

text \<open>
  The body of the upload task, given how \<open>sendSnapshot\<close> ends (\<open>None\<close>: it succeeds).
  \<open>this.build.id\<close> throws inside the \<open>try\<close> when there is no build. The result is \<open>Inl\<close>
  when the task itself rejects.
\<close>

definition upload_task :: "percy \<Rightarrow> string \<Rightarrow> upload_error option \<Rightarrow> js_error + percy" where
  "upload_task p name answer =
     (case (case build p of
              None \<Rightarrow> Some \<lparr>ue_text = ''Cannot read properties of undefined'', ue_response = None\<rparr>
            | Some b \<Rightarrow> answer) of
        None \<Rightarrow> Inr (p\<lparr>effects := effects p @ [SendSnapshot name]\<rparr>)
      | Some error \<Rightarrow>
          (let p = (if build p = None then p
                    else p\<lparr>effects := effects p @ [SendSnapshot name]\<rparr>);
               failed = build_failure error;
               p = p\<lparr>logged := logged p @
                     [LogError (''Encountered an error uploading snapshot: '' @ name),
                      LogError (case failed of
                                  None \<Rightarrow> ue_text error
                                | Some f \<Rightarrow>
                                    (case detail f of None \<Rightarrow> ue_text error | Some d \<Rightarrow> d))]\<rparr>
           in case failed of
                None \<Rightarrow> Inr p
              | Some f \<Rightarrow>
                  (case build p of
                     None \<Rightarrow> Inl (TypeError ''Cannot set properties of undefined'')
                   | Some b \<Rightarrow>
                       Inr (percy_close (p\<lparr>build := Some (b\<lparr>build_failed := True\<rparr>)\<rparr>)))))"

subsection \<open>What happens to an orchestrator\<close>

text \<open>
  The calls of its methods, and the ends of what it awaits: a task is dispatched by
  its queue; the build is created or not; the browser and the server have started or
  not; a capture task schedules an upload, or ends; an upload task ends.
\<close>

datatype queue_name = Uploads | Snapshots

datatype percy_action =
    CallStart
  | CallStop bool
  | CallSnapshot string
  | Dispatch queue_name string
  | BuildCreated string string string
  | BuildFailed js_error
  | Started
  | StartFailed string js_error
  | SnapshotTaken string string
  | CaptureDone string
  | UploadDone string "upload_error option"

text \<open>
  The build task when dispatched pauses the uploads; when the build is created it
  stores it and resumes them, and the task ends. Its failure is caught by \<open>start()\<close>:
  logged and followed by \<open>close()\<close> when uploads are deferred, else as the failure of
  \<open>start()\<close> itself.
\<close>

definition build_created :: "percy \<Rightarrow> string \<Rightarrow> string \<Rightarrow> string \<Rightarrow> percy" where
  "build_created p i number url =
     upload_finished
       (p\<lparr>build := Some \<lparr>build_id = i, build_number = number, build_url = url,
                          build_failed = False\<rparr>,
          uploads := q_run (uploads p)\<rparr>) ''build/create''"

definition build_failed_task :: "percy \<Rightarrow> js_error \<Rightarrow> percy" where
  "build_failed_task p error =
     (let p = upload_finished p ''build/create''
      in if deferUploads p
         then percy_close
                (p\<lparr>logged := logged p @
                     [LogError ''Failed to create build'', LogError (message error)]\<rparr>)
         else if readyState p = Some 0 then start_catch p [] error
         else p)"

text \<open>
  One step. The end of a task is the end of a task that has started and was not
  cancelled; after any step, a \<open>stop()\<close> that waits for an emptied queue goes on.
\<close>

fun percy_act :: "percy \<Rightarrow> percy_action \<Rightarrow> percy" where
  "percy_act p CallStart = start p"
| "percy_act p (CallStop force) = stop p force"
| "percy_act p (CallSnapshot name) =
     (case snapshot p name of
        Inl e \<Rightarrow> p\<lparr>thrown := thrown p @ [e]\<rparr>
      | Inr p' \<Rightarrow> p')"
| "percy_act p (Dispatch Uploads key) =
     (case q_dispatch (uploads p) key of
        None \<Rightarrow> p
      | Some q \<Rightarrow> p\<lparr>uploads := (if key = ''build/create'' then q_stop q else q)\<rparr>)"
| "percy_act p (Dispatch Snapshots key) =
     (case q_dispatch (snapshots p) key of
        None \<Rightarrow> p
      | Some q \<Rightarrow> p\<lparr>snapshots := q\<rparr>)"
| "percy_act p (BuildCreated i number url) =
     (if q_started (uploads p) ''build/create'' then build_created p i number url else p)"
| "percy_act p (BuildFailed error) =
     (if q_started (uploads p) ''build/create'' then build_failed_task p error else p)"
| "percy_act p Started =
     (if readyState p = Some 0 \<and> (deferUploads p \<or> build p \<noteq> None) then start_done p else p)"
| "percy_act p (StartFailed code error) =
     (if readyState p = Some 0 \<and> (deferUploads p \<or> build p \<noteq> None)
      then start_catch p code error else p)"
| "percy_act p (SnapshotTaken task name) =
     (if q_started (snapshots p) (''snapshot/'' @ task)
      then scheduleUpload (p\<lparr>logged := logged p @ [LogInfo (''Snapshot taken: '' @ name)]\<rparr>) name
      else p)"
| "percy_act p (CaptureDone task) = snapshot_finished p (''snapshot/'' @ task)"
| "percy_act p (UploadDone name answer) =
     (if q_started (uploads p) (''upload/'' @ name) then
        (case upload_task p name answer of
           Inl e \<Rightarrow> upload_finished (p\<lparr>thrown := thrown p @ [e]\<rparr>) (''upload/'' @ name)
         | Inr p' \<Rightarrow> upload_finished p' (''upload/'' @ name))
      else p)"

definition percy_step :: "percy \<Rightarrow> percy_action \<Rightarrow> percy" where
  "percy_step p a = stop_resume (percy_act p a)"

fun percy_run :: "percy \<Rightarrow> percy_action list \<Rightarrow> percy" where
  "percy_run p [] = p"
| "percy_run p (a # as) = percy_run (percy_step p a) as"

text \<open>The readiness states in their order: \<open>null\<close>, then 0, 1, 2 and 3.\<close>

fun rank :: "nat option \<Rightarrow> nat" where
  "rank None = 0"
| "rank (Some n) = Suc n"

text \<open>
  What holds of an orchestrator at all times: a \<open>stop()\<close> is suspended only in state 2,
  and the state is \<open>null\<close> or one of 0 to 3.
\<close>

definition ready_inv :: "percy \<Rightarrow> bool" where
  "ready_inv p \<longleftrightarrow>
     (stopping p \<noteq> NotDraining \<longrightarrow> readyState p = Some 2) \<and>
     readyState p \<in> {None, Some 0, Some 1, Some 2, Some 3}"

text \<open>The build was marked failed.\<close>

definition failed :: "percy \<Rightarrow> bool" where
  "failed p = (case build p of None \<Rightarrow> False | Some b \<Rightarrow> build_failed b)"

text \<open>A progress report of the drain of the uploads is in the log.\<close>

fun is_upload_progress :: "log_entry \<Rightarrow> bool" where
  "is_upload_progress (LogProgress verb n persist) = (verb = ''Uploading'')"
| "is_upload_progress _ = False"

definition drain_inv :: "percy \<Rightarrow> bool" where
  "drain_inv p \<longleftrightarrow>
     (stopping p \<noteq> NotDraining \<longrightarrow> q_closed (snapshots p)) \<and>
     (stopping p = DrainUploads \<or> list_ex is_upload_progress (logged p) \<longrightarrow>
        force_closed (snapshots p))"

subsection \<open>The hooks of a capture task\<close>

record resource =
  res_url :: string
  res_root :: bool
  res_content :: string

text \<open>
  \<open>root\<close> of the task: made by \<open>createRootResource\<close> (utils.js, given from outside) when
  a DOM snapshot was supplied.
\<close>

definition capture_root ::
  "(string \<Rightarrow> string \<Rightarrow> resource) \<Rightarrow> string \<Rightarrow> string option \<Rightarrow> resource option" where
  "capture_root createRootResource url domSnapshot =
     (case domSnapshot of
        None \<Rightarrow> None
      | Some d \<Rightarrow> if d = [] then None else Some (createRootResource url d))"

definition getResource ::
  "resource option \<Rightarrow> (string \<rightharpoonup> resource) \<Rightarrow> (string \<rightharpoonup> resource) \<Rightarrow> string \<Rightarrow> resource option" where
  "getResource root resources cache url =
     (if Some url = map_option res_url root then root
      else case resources url of
             Some r \<Rightarrow> Some r
           | None \<Rightarrow> cache url)"

definition addResource ::
  "resource \<Rightarrow> (string \<rightharpoonup> resource) \<times> (string \<rightharpoonup> resource) \<Rightarrow>
     (string \<rightharpoonup> resource) \<times> (string \<rightharpoonup> resource)" where
  "addResource r maps =
     (if res_root r then maps
      else ((fst maps)(res_url r \<mapsto> r), (snd maps)(res_url r \<mapsto> r)))"

text \<open>From \<open>p\<close> to \<open>p'\<close> the state has not gone back, and \<open>ready_inv\<close> holds of \<open>p'\<close>.\<close>

definition advances :: "percy \<Rightarrow> percy \<Rightarrow> bool" where
  "advances p p' \<longleftrightarrow> ready_inv p' \<and> rank (readyState p) \<le> rank (readyState p')"

text \<open>Both queues are closed and hold no task; the build is not failed without that.\<close>

definition both_closed :: "percy \<Rightarrow> bool" where
  "both_closed p \<longleftrightarrow> force_closed (uploads p) \<and> force_closed (snapshots p)"


subsection \<open>Concrete orchestrators and resources\<close>

definition c5_percy :: percy where
  "c5_percy = new_Percy False False True None"

definition c10_percy :: percy where
  "c10_percy = start (new_Percy True False True (Some 2))"

definition c9_root :: resource where
  "c9_root = \<lparr>res_url = ''http://localhost/'', res_root = True, res_content = ''<html/>''\<rparr>"

definition c9_style :: resource where
  "c9_style = \<lparr>res_url = ''http://localhost/a.css'', res_root = False, res_content = ''a {}''\<rparr>"



text \<open>
  \<open>stop()\<close> called with three snapshots queued and no upload under way; then the
  three captures, each scheduling its upload, and the three uploads.
\<close>

definition c7_queued :: "percy_action list" where
  "c7_queued =
     [CallStart, Dispatch Uploads ''build/create'',
      BuildCreated ''123'' ''7'' ''https://percy.io/builds/7'', Started,
      CallSnapshot ''a'', CallSnapshot ''b'', CallSnapshot ''c'', CallStop False]"

definition c7_captures :: "percy_action list" where
  "c7_captures =
     [Dispatch Snapshots ''snapshot/a'', Dispatch Snapshots ''snapshot/b'',
      Dispatch Snapshots ''snapshot/c'',
      SnapshotTaken ''a'' ''a'', CaptureDone ''a'',
      SnapshotTaken ''b'' ''b'', CaptureDone ''b'',
      SnapshotTaken ''c'' ''c'', CaptureDone ''c'']"

definition c7_uploads :: "percy_action list" where
  "c7_uploads =
     [Dispatch Uploads ''upload/a'', Dispatch Uploads ''upload/b'',
      Dispatch Uploads ''upload/c'',
      UploadDone ''a'' None, UploadDone ''b'' None, UploadDone ''c'' None]"

section \<open>Properties of the protocol session\<close>

lemma run_append: "run p (xs @ ys) = run (run p xs) ys"
  by (induction xs arbitrary: p) simp_all

lemma message_assign [simp]: "message (assign_message e m) = m"
  by (cases e) simp_all

lemma proms_update:
  "set (proms (AList.update i cb cs)) \<subseteq> insert (cb_promise cb) (set (proms cs))"
  by (induction cs) (auto simp: proms_def)

lemma distinct_proms_update:
  "distinct (proms cs) \<Longrightarrow> cb_promise cb \<notin> set (proms cs) \<Longrightarrow>
   distinct (proms (AList.update i cb cs))"
proof (induction cs)
  case Nil
  then show ?case by (simp add: proms_def)
next
  case (Cons c cs)
  have sub: "set (proms (AList.update i cb cs)) \<subseteq> insert (cb_promise cb) (set (proms cs))"
    by (rule proms_update)
  from Cons have d: "distinct (proms (AList.update i cb cs))"
    by (simp add: proms_def)
  show ?case
  proof (cases "fst c = i")
    case True
    with Cons.prems show ?thesis by (simp add: proms_def)
  next
    case False
    from Cons.prems have "cb_promise (snd c) \<notin> set (proms cs)" "cb_promise (snd c) \<noteq> cb_promise cb"
      by (auto simp: proms_def)
    with sub have "cb_promise (snd c) \<notin> set (proms (AList.update i cb cs))" by blast
    with False d show ?thesis by (simp add: proms_def)
  qed
qed

lemma proms_delete: "proms (AList.delete i cs) = proms (filter (\<lambda>e. fst e \<noteq> i) cs)"
  by (induction cs) (auto simp: proms_def)

lemma set_proms_delete: "set (proms (AList.delete i cs)) \<subseteq> set (proms cs)"
  by (induction cs) (auto simp: proms_def)

lemma distinct_proms_delete: "distinct (proms cs) \<Longrightarrow> distinct (proms (AList.delete i cs))"
proof (induction cs)
  case Nil
  then show ?case by (simp add: proms_def)
next
  case (Cons c cs)
  have "set (proms (AList.delete i cs)) \<subseteq> set (proms cs)" by (rule set_proms_delete)
  with Cons show ?case by (auto simp: proms_def)
qed

lemma map_of_proms: "map_of cs i = Some cb \<Longrightarrow> cb_promise cb \<in> set (proms cs)"
  by (induction cs) (auto simp: proms_def split: if_splits)

lemma proms_delete_fresh:
  "map_of cs i = Some cb \<Longrightarrow> distinct (proms cs) \<Longrightarrow>
   cb_promise cb \<notin> set (proms (AList.delete i cs))"
proof (induction cs)
  case Nil
  then show ?case by simp
next
  case (Cons c cs)
  show ?case
  proof (cases "fst c = i")
    case True
    with Cons.prems have "snd c = cb" by (cases c) simp
    with Cons.prems have "cb_promise cb \<notin> set (proms cs)" by (simp add: proms_def)
    moreover have "set (proms (AList.delete i cs)) \<subseteq> set (proms cs)" by (rule set_proms_delete)
    ultimately show ?thesis using True by auto
  next
    case False
    with Cons.prems have m: "map_of cs i = Some cb" by (cases c) (simp split: if_splits)
    then have "cb_promise cb \<in> set (proms cs)" by (rule map_of_proms)
    moreover from Cons.prems(2) have "cb_promise (snd c) \<notin> set (proms cs)"
      by (simp add: proms_def)
    ultimately have "cb_promise (snd c) \<noteq> cb_promise cb" by metis
    moreover from Cons m have "cb_promise cb \<notin> set (proms (AList.delete i cs))"
      by (simp add: proms_def)
    ultimately show ?thesis using False by (simp add: proms_def)
  qed
qed

lemma call_listener_frame:
  "callbacks (call_listener n l e p) = callbacks p \<and>
   settled (call_listener n l e p) = settled p \<and>
   next_promise (call_listener n l e p) = next_promise p \<and>
   emitted (call_listener n l e p) = emitted p \<and>
   browser (call_listener n l e p) = browser p"
  by (cases l; cases e) (simp_all add: off_def close_def split: option.splits)

lemma call_listeners_frame:
  "callbacks (call_listeners n ls e p) = callbacks p \<and>
   settled (call_listeners n ls e p) = settled p \<and>
   next_promise (call_listeners n ls e p) = next_promise p \<and>
   emitted (call_listeners n ls e p) = emitted p \<and>
   browser (call_listeners n ls e p) = browser p"
  by (induction ls arbitrary: p) (simp_all add: call_listener_frame)

lemma emit_frame:
  "callbacks (emit p n e) = callbacks p \<and>
   settled (emit p n e) = settled p \<and>
   next_promise (emit p n e) = next_promise p \<and>
   emitted (emit p n e) = emitted p @ [(n, e)] \<and>
   browser (emit p n e) = browser p"
  by (simp add: emit_def Let_def call_listeners_frame split: option.splits)

lemma disjoint_insert_sub:
  "A \<subseteq> insert x B \<Longrightarrow> x \<notin> C \<Longrightarrow> B \<inter> C = {} \<Longrightarrow> A \<inter> C = {}"
  by blast

lemma send_promise_inv:
  assumes "promise_inv p"
  shows "promise_inv (send p m ps i)"
proof -
  let ?cb = "\<lparr>cb_error = Error [], cb_method = m, cb_promise = next_promise p\<rparr>"
  from assms have fresh: "next_promise p \<notin> set (proms (callbacks p))"
    "next_promise p \<notin> fst ` set (settled p)"
    by (auto simp: promise_inv_def)
  from assms fresh have d: "distinct (proms (AList.update i ?cb (callbacks p)))"
    by (intro distinct_proms_update) (simp_all add: promise_inv_def)
  have sub: "set (proms (AList.update i ?cb (callbacks p)))
      \<subseteq> insert (next_promise p) (set (proms (callbacks p)))"
    using proms_update[of i ?cb "callbacks p"] by simp
  show ?thesis
  proof (cases "truthy (closedReason p)")
    case True
    with assms fresh show ?thesis
      by (auto simp: promise_inv_def send_def Let_def less_Suc_eq)
  next
    case False
    show ?thesis
    proof (cases "browser p")
      case None
      with False assms fresh show ?thesis
        by (auto simp: promise_inv_def send_def Let_def less_Suc_eq)
    next
      case (Some c)
      have 1: "distinct (map fst (AList.update i ?cb (callbacks p)))"
        using assms by (simp add: promise_inv_def AList.distinct_update)
      from assms have dj: "set (proms (callbacks p)) \<inter> fst ` set (settled p) = {}"
        and ds: "distinct (map fst (settled p))"
        by (simp_all add: promise_inv_def)
      from sub fresh(2) dj
      have "set (proms (AList.update i ?cb (callbacks p))) \<inter> fst ` set (settled p) = {}"
        by (rule disjoint_insert_sub)
      with d ds
      have 2: "distinct (proms (AList.update i ?cb (callbacks p)) @ map fst (settled p))"
        by simp
      have 3: "\<forall>k \<in> set (proms (AList.update i ?cb (callbacks p)) @ map fst (settled p)).
                 k < Suc (next_promise p)"
        using sub assms by (auto simp: promise_inv_def less_Suc_eq)
      from Some False 1 2 3 show ?thesis
        by (simp add: promise_inv_def send_def Let_def)
    qed
  qed
qed

lemma pending_callD:
  "pending_call p mid = Some (i, cb) \<Longrightarrow> mid = Some i \<and> i \<noteq> 0 \<and> map_of (callbacks p) i = Some cb"
  by (auto simp: pending_call_def split: option.splits if_splits)

lemma handleMessage_promise_inv:
  assumes "promise_inv p"
  shows "promise_inv (handleMessage p d)"
proof (cases "pending_call p (msg_id d)")
  case None
  with assms show ?thesis
    by (simp add: handleMessage_def promise_inv_def emit_frame)
next
  case (Some ic)
  obtain i cb where ic: "ic = (i, cb)" by (cases ic)
  with Some have m: "map_of (callbacks p) i = Some cb" by (auto dest: pending_callD)
  from assms have dp: "distinct (proms (callbacks p))" by (simp add: promise_inv_def)
  have a: "cb_promise cb \<notin> set (proms (AList.delete i (callbacks p)))"
    using m dp by (rule proms_delete_fresh)
  have b: "cb_promise cb \<in> set (proms (callbacks p))" using m by (rule map_of_proms)
  have c: "set (proms (AList.delete i (callbacks p))) \<subseteq> set (proms (callbacks p))"
    by (rule set_proms_delete)
  have d': "distinct (proms (AList.delete i (callbacks p)))"
    using dp by (rule distinct_proms_delete)
  have 1: "distinct (map fst (AList.delete i (callbacks p)))"
    using assms by (simp add: promise_inv_def AList.distinct_delete)
  have 2: "distinct (proms (AList.delete i (callbacks p)) @ map fst (settled p) @ [cb_promise cb])"
    using a b c d' assms by (auto simp: promise_inv_def)
  have 3: "\<forall>k \<in> set (proms (AList.delete i (callbacks p)) @ map fst (settled p) @ [cb_promise cb]).
             k < next_promise p"
    using b c assms by (auto simp: promise_inv_def)
  from Some ic 1 2 3 show ?thesis
    by (simp add: handleMessage_def promise_inv_def Let_def split: option.splits)
qed

lemma proms_reject: "map fst (map (reject_pending r) cs) = proms cs"
  by (simp add: proms_def reject_pending_def)

lemma close_session_promise_inv:
  assumes "promise_inv p"
  shows "promise_inv (close_session p)"
proof -
  have "map fst (settled (close_session p)) = map fst (settled p) @ proms (callbacks p)"
    using proms_reject[of "close_reason p" "callbacks p"] by (simp add: close_session_def)
  moreover have "callbacks (close_session p) = []" "next_promise (close_session p) = next_promise p"
    by (simp_all add: close_session_def)
  ultimately show ?thesis
    using assms unfolding promise_inv_def by (auto simp: proms_def)
qed

lemma step_promise_inv: "promise_inv p \<Longrightarrow> promise_inv (step p a)"
  by (cases a) (simp_all add: send_promise_inv handleMessage_promise_inv close_session_promise_inv)

lemma run_promise_inv: "promise_inv p \<Longrightarrow> promise_inv (run p acts)"
  by (induction acts arbitrary: p) (simp_all add: step_promise_inv)


lemma call_listener_truthy:
  "truthy (closedReason p) \<Longrightarrow> truthy (closedReason (call_listener n l e p))"
  by (cases l; cases e) (simp_all add: off_def close_def split: option.splits)

lemma call_listeners_truthy:
  "truthy (closedReason p) \<Longrightarrow> truthy (closedReason (call_listeners n ls e p))"
  by (induction ls arbitrary: p) (simp_all add: call_listener_truthy)

lemma emit_truthy: "truthy (closedReason p) \<Longrightarrow> truthy (closedReason (emit p n e))"
  by (simp add: emit_def Let_def call_listeners_truthy split: option.splits)

lemma call_listener_nonempty:
  "closedReason p \<noteq> Some [] \<Longrightarrow> closedReason (call_listener n l e p) \<noteq> Some []"
  by (cases l; cases e) (simp_all add: off_def close_def split: option.splits)

lemma call_listeners_nonempty:
  "closedReason p \<noteq> Some [] \<Longrightarrow> closedReason (call_listeners n ls e p) \<noteq> Some []"
  by (induction ls arbitrary: p) (simp_all add: call_listener_nonempty)

lemma emit_nonempty: "closedReason p \<noteq> Some [] \<Longrightarrow> closedReason (emit p n e) \<noteq> Some []"
  by (simp add: emit_def Let_def call_listeners_nonempty split: option.splits)

lemma close_reason_nonempty: "close_reason p \<noteq> []"
  by (simp add: close_reason_def split: option.splits)





lemma closed_close_session: "closed (close_session p)"
  by (simp add: closed_def close_session_def close_reason_nonempty)

lemma send_reason_inv: "reason_inv p \<Longrightarrow> reason_inv (send p m ps i)"
  by (auto simp: reason_inv_def closed_def send_def Let_def split: option.splits)

lemma handleMessage_reason_inv:
  assumes "reason_inv p"
  shows "reason_inv (handleMessage p d)"
proof (cases "pending_call p (msg_id d)")
  case None
  then have h: "handleMessage p d = emit p (msg_method d) (msg_params d)"
    by (simp add: handleMessage_def)
  from assms show ?thesis
    unfolding h reason_inv_def closed_def
    by (simp add: emit_frame emit_nonempty emit_truthy)
next
  case (Some ic)
  obtain i cb where ic: "ic = (i, cb)" by (cases ic)
  with Some have "map_of (callbacks p) i = Some cb" by (auto dest: pending_callD)
  then have "callbacks p \<noteq> []" by auto
  with assms have "browser p \<noteq> None" by (auto simp: reason_inv_def closed_def)
  with assms Some ic show ?thesis
    by (auto simp: handleMessage_def reason_inv_def Let_def split: option.splits)
qed

lemma close_session_reason_inv: "reason_inv (close_session p)"
  using closed_close_session[of p] close_reason_nonempty[of p]
  by (simp add: reason_inv_def) (simp add: close_session_def)

lemma init_page_inv: "promise_inv (init_page cs sid tid par) \<and> reason_inv (init_page cs sid tid par)"
  by (simp add: promise_inv_def reason_inv_def init_page_def proms_def)








lemma map_of_is_in: "map_of cs i = Some cb \<Longrightarrow> (i, cb) \<in> set cs"
  by (rule map_of_SomeD)




lemma step_reason_inv: "reason_inv p \<Longrightarrow> reason_inv (step p a)"
  by (cases a) (simp_all add: send_reason_inv handleMessage_reason_inv close_session_reason_inv)

lemma run_reason_inv: "reason_inv p \<Longrightarrow> reason_inv (run p acts)"
  by (induction acts arbitrary: p) (simp_all add: step_reason_inv)

lemma reachable_inv:
  "promise_inv (run (init_page cs sid tid par) acts) \<and>
   reason_inv (run (init_page cs sid tid par) acts)"
  using init_page_inv run_promise_inv run_reason_inv by blast










section \<open>Properties of goto\<close>

























text \<open>A \<open>goto\<close> that returns: both events arrive, a poll sees them, the call is answered.\<close>

lemma goto_returns:
  "outcome_of (goto c4_config c4_framed
     [Act (Message c4_navigated), Act (Message c4_loaded), Poll, Act (Message c4_answer)]) =
     Some (Inr ()) \<and>
   finished (page_of (goto c4_config c4_framed
     [Act (Message c4_navigated), Act (Message c4_loaded), Poll, Act (Message c4_answer)])) =
     [1, 0] \<and>
   listeners (page_of (goto c4_config c4_framed
     [Act (Message c4_navigated), Act (Message c4_loaded), Poll, Act (Message c4_answer)])) =
     listeners c4_framed"
  by (simp add: goto_def goto_begin_def goto_settle_def navigate_def c4_framed_def c4_config_def
      init_page_def install_watchers_def send_navigate_def navigate_answer_def send_def
      goto_poll_def waitFor_poll_def goto_condition_def PAGE_TIMEOUT_def off_def
      navigate_progress_def handleMessage_def pending_call_def emit_def c4_navigated_def
      c4_loaded_def c4_answer_def errorText_def)



section \<open>Properties of eval\<close>

text \<open>
  Claim C8. When the text of the function does not parse as \<open>(text)\<close>, it is rewritten
  (\<open>async name...\<close> into \<open>async function name...\<close>, anything else into \<open>function ...\<close>);
  when the rewritten text does not parse either, \<open>eval\<close> throws "not serializable"
  and the session is as before: nothing was sent. Otherwise the wrapped text (as given
  when it parsed, rewritten when not) is sent with \<open>Runtime.callFunctionOn\<close>. When the
  answer has exception details, \<open>eval\<close> throws the description of the exception; else
  it returns the value.
\<close>

theorem C8_eval:
  "(\<not> parses (''('' @ fn @ '')'') \<and> \<not> parses (''('' @ rewrite_shorthand fn @ '')'') \<longrightarrow>
      eval_call parses w p fn args i =
        (Inl (Error ''The provided function is not serializable''), p)) \<and>
   (\<not> parses (''('' @ fn @ '')'') \<and> parses (''('' @ rewrite_shorthand fn @ '')'') \<longrightarrow>
      eval_call parses w p fn args i =
        (Inr (next_promise p),
         send p ''Runtime.callFunctionOn''
           (CallFunctionOn (withPercyHelpers w (rewrite_shorthand fn)) args (contextId p)) i)) \<and>
   (parses (''('' @ fn @ '')'') \<longrightarrow>
      eval_call parses w p fn args i =
        (Inr (next_promise p),
         send p ''Runtime.callFunctionOn''
           (CallFunctionOn (withPercyHelpers w fn) args (contextId p)) i)) \<and>
   (startsWith fn ''async '' \<longrightarrow> rewrite_shorthand fn = ''async function'' @ drop 5 fn) \<and>
   (\<not> startsWith fn ''async '' \<longrightarrow> rewrite_shorthand fn = ''function '' @ fn) \<and>
   eval_result (Resolved (CallResult v (Some description))) = Inl (ThrownValue description) \<and>
   eval_result (Resolved (CallResult v None)) = Inr v"
  by (simp add: eval_call_def serialize_def rewrite_shorthand_def)

theorem C8_eval_witness:
  "eval_call c8_parses ''W'' c3_open ''%'' [] 3 =
     (Inl (Error ''The provided function is not serializable''), c3_open) \<and>
   sent (snd (eval_call c8_parses ''W'' c3_open ''async foo() {}'' [''1''] 3)) =
     [\<lparr>req_sessionId = Some ''session'', req_method = ''Runtime.callFunctionOn'',
       req_params = CallFunctionOn
         ''function withPercyHelpers() {return (async function foo() {})({waitFor: W}, ...arguments)}''
         [''1''] None\<rparr>] \<and>
   sent (snd (eval_call c8_parses ''W'' c3_open ''foo() {}'' [] 3)) =
     [\<lparr>req_sessionId = Some ''session'', req_method = ''Runtime.callFunctionOn'',
       req_params = CallFunctionOn
         ''function withPercyHelpers() {return (function foo() {})({waitFor: W}, ...arguments)}''
         [] None\<rparr>]"
proof -
  have a: "\<not> c8_parses (''('' @ ''%'' @ '')'') \<and>
           \<not> c8_parses (''('' @ rewrite_shorthand ''%'' @ '')'')"
    by (simp add: c8_parses_def startsWith_def rewrite_shorthand_def)
  have b: "\<not> c8_parses (''('' @ ''async foo() {}'' @ '')'') \<and>
           c8_parses (''('' @ rewrite_shorthand ''async foo() {}'' @ '')'')"
    by (simp add: c8_parses_def startsWith_def rewrite_shorthand_def)
  have c: "\<not> c8_parses (''('' @ ''foo() {}'' @ '')'') \<and>
           c8_parses (''('' @ rewrite_shorthand ''foo() {}'' @ '')'')"
    by (simp add: c8_parses_def startsWith_def rewrite_shorthand_def)
  have 1: "eval_call c8_parses ''W'' c3_open ''%'' [] 3 =
     (Inl (Error ''The provided function is not serializable''), c3_open)"
    using C8_eval[of c8_parses "''%''" "''W''" c3_open "[]" 3] a by blast
  have 2: "eval_call c8_parses ''W'' c3_open ''async foo() {}'' [''1''] 3 =
        (Inr (next_promise c3_open),
         send c3_open ''Runtime.callFunctionOn''
           (CallFunctionOn (withPercyHelpers ''W'' (rewrite_shorthand ''async foo() {}'')) [''1'']
              (contextId c3_open)) 3)"
    using C8_eval[of c8_parses "''async foo() {}''" "''W''" c3_open "[''1'']" 3] b by blast
  have 3: "eval_call c8_parses ''W'' c3_open ''foo() {}'' [] 3 =
        (Inr (next_promise c3_open),
         send c3_open ''Runtime.callFunctionOn''
           (CallFunctionOn (withPercyHelpers ''W'' (rewrite_shorthand ''foo() {}'')) []
              (contextId c3_open)) 3)"
    using C8_eval[of c8_parses "''foo() {}''" "''W''" c3_open "[]" 3] c by blast
  show ?thesis
    unfolding 1 2 3
    by (simp add: c3_open_def init_page_def send_def withPercyHelpers_def
        rewrite_shorthand_def startsWith_def)
qed

section \<open>Properties of the orchestrator\<close>

lemma advances_trans: "advances p q \<Longrightarrow> advances q r \<Longrightarrow> advances p r"
  by (auto simp: advances_def)

lemma advances_frame:
  assumes "ready_inv p" and "readyState p' = readyState p" and "stopping p' = stopping p"
  shows "advances p p'"
  using assms by (simp add: advances_def ready_inv_def)

lemma advances_refl: "ready_inv p \<Longrightarrow> advances p p"
  by (simp add: advances_def)

lemma stop_finish_state:
  "readyState (stop_finish p) = Some 3 \<and> stopping (stop_finish p) = NotDraining"
  by (simp add: stop_finish_def Let_def teardown_def split: option.splits)

lemma stop_uploads_state:
  "(readyState (stop_uploads p) = Some 3 \<and> stopping (stop_uploads p) = NotDraining) \<or>
   (readyState (stop_uploads p) = readyState p \<and> stopping (stop_uploads p) = DrainUploads)"
  by (simp add: stop_uploads_def Let_def stop_finish_state)

lemma advances_stop_finish:
  assumes "readyState p \<in> {None, Some 0, Some 1, Some 2, Some 3}"
  shows "advances p (stop_finish p)"
  using assms stop_finish_state[of p] by (auto simp: advances_def ready_inv_def)

lemma advances_stop_uploads:
  assumes "readyState p = Some 2"
  shows "advances p (stop_uploads p)"
  using assms stop_uploads_state[of p] by (auto simp: advances_def ready_inv_def)

lemma advances_stop_resume:
  assumes "ready_inv p"
  shows "advances p (stop_resume p)"
proof (cases "stopping p")
  case NotDraining
  with assms show ?thesis by (simp add: stop_resume_def advances_refl)
next
  case DrainSnapshots
  with assms have "readyState p = Some 2" by (simp add: ready_inv_def)
  then have "advances p (stop_uploads p)" by (rule advances_stop_uploads)
  with assms DrainSnapshots show ?thesis
    by (simp add: stop_resume_def advances_refl)
next
  case DrainUploads
  with assms have "advances p (stop_finish p)"
    by (intro advances_stop_finish) (simp add: ready_inv_def)
  with assms DrainUploads show ?thesis
    by (simp add: stop_resume_def advances_refl)
qed

lemma stop_noop:
  "readyState p = None \<or> readyState p = Some 0 \<or> readyState p = Some 3 \<Longrightarrow> stop p force = p"
  by (auto simp: stop_def falsy_state_def)

lemma percy_close_state:
  "readyState (percy_close p) = readyState p \<and> stopping (percy_close p) = stopping p \<and>
   logged (percy_close p) = logged p \<and> build (percy_close p) = build p \<and>
   skipUploads (percy_close p) = skipUploads p"
  by (simp add: percy_close_def)

lemma stop_stopping:
  "readyState p = Some 2 \<Longrightarrow> stop p force = (if force then percy_close p else p)"
  by (simp add: stop_def falsy_state_def percy_close_state)

lemma stop_running:
  assumes "readyState p = Some 1"
  shows "stop p False =
           (if q_tasks (snapshots p) \<noteq> []
            then p\<lparr>readyState := Some 2, snapshots := q_close (snapshots p) False,
                   stopping := DrainSnapshots\<rparr>
            else stop_uploads
                   (p\<lparr>readyState := Some 2, snapshots := q_close (snapshots p) False\<rparr>))"
    and "stop p True =
           (if q_tasks (q_close (snapshots (percy_close p)) False) \<noteq> []
            then (percy_close p)\<lparr>readyState := Some 2,
                logged := logged p @ [LogInfo ''Stopping percy...''],
                snapshots := q_close (snapshots (percy_close p)) False,
                stopping := DrainSnapshots\<rparr>
            else stop_uploads
             ((percy_close p)\<lparr>readyState := Some 2,
                logged := logged p @ [LogInfo ''Stopping percy...''],
                snapshots := q_close (snapshots (percy_close p)) False\<rparr>))"
  using assms
  by (simp_all add: stop_def falsy_state_def Let_def percy_close_state)
     (simp_all add: q_close_def)

lemma stop_force_tasks: "q_tasks (q_close (snapshots (percy_close p)) False) = []"
  by (simp add: percy_close_def q_close_def)

lemma advances_stop:
  assumes "ready_inv p"
  shows "advances p (stop p force)"
proof -
  from assms consider "readyState p = None \<or> readyState p = Some 0 \<or> readyState p = Some 3"
    | "readyState p = Some 2" | "readyState p = Some 1"
    by (auto simp: ready_inv_def)
  then show ?thesis
  proof cases
    case 1
    then have "stop p force = p" by (rule stop_noop)
    with assms show ?thesis by (simp add: advances_refl)
  next
    case 2
    have "advances p (percy_close p)"
      using assms by (intro advances_frame) (simp_all add: percy_close_def)
    with 2 assms show ?thesis by (simp add: stop_stopping advances_refl)
  next
    case 3
    show ?thesis
    proof (cases force)
      case True
      let ?r = "(percy_close p)\<lparr>readyState := Some 2,
                logged := logged p @ [LogInfo ''Stopping percy...''],
                snapshots := q_close (snapshots (percy_close p)) False\<rparr>"
      have "advances p ?r" using 3 assms
        by (simp add: advances_def ready_inv_def percy_close_def)
      moreover have "advances ?r (stop_uploads ?r)"
        by (rule advances_stop_uploads) simp
      ultimately have "advances p (stop_uploads ?r)" by (rule advances_trans)
      with True 3 show ?thesis by (simp add: stop_running(2) stop_force_tasks)
    next
      case False
      let ?r = "p\<lparr>readyState := Some 2, snapshots := q_close (snapshots p) False\<rparr>"
      have a: "advances p ?r" using 3 assms by (simp add: advances_def ready_inv_def)
      have b: "advances p (?r\<lparr>stopping := DrainSnapshots\<rparr>)"
        using 3 assms by (simp add: advances_def ready_inv_def)
      have "advances ?r (stop_uploads ?r)"
        by (rule advances_stop_uploads) simp
      with a have c: "advances p (stop_uploads ?r)" by (rule advances_trans)
      from False 3 b c show ?thesis by (simp add: stop_running(1))
    qed
  qed
qed

lemma upload_finished_state:
  "readyState (upload_finished p key) = readyState p \<and>
   stopping (upload_finished p key) = stopping p \<and>
   build (upload_finished p key) = build p \<and>
   deferUploads (upload_finished p key) = deferUploads p \<and>
   snapshots (upload_finished p key) = snapshots p"
  by (simp add: upload_finished_def Let_def)

lemma snapshot_finished_state:
  "readyState (snapshot_finished p key) = readyState p \<and>
   stopping (snapshot_finished p key) = stopping p \<and>
   build (snapshot_finished p key) = build p \<and>
   uploads (snapshot_finished p key) = uploads p"
  by (simp add: snapshot_finished_def Let_def)

lemma upload_task_state:
  assumes "upload_task p name answer = Inr p'"
  shows "readyState p' = readyState p \<and> stopping p' = stopping p"
  using assms
  by (auto simp: upload_task_def Let_def percy_close_def split: option.splits if_splits)

lemma advances_act:
  assumes "ready_inv p"
  shows "advances p (percy_act p a)"
proof (cases a)
  case CallStart
  with assms show ?thesis by (auto simp: start_def ready_inv_def advances_def)
next
  case (CallStop force)
  with assms show ?thesis by (simp add: advances_stop)
next
  case (CallSnapshot name)
  with assms show ?thesis by (auto simp: snapshot_def ready_inv_def advances_def)
next
  case (Dispatch q key)
  with assms show ?thesis
    by (cases q) (auto simp: ready_inv_def advances_def split: option.splits)
next
  case (BuildCreated i number url)
  have "advances p (build_created p i number url)"
    using assms by (intro advances_frame) (simp_all add: build_created_def upload_finished_state)
  with BuildCreated assms show ?thesis by (simp add: advances_refl)
next
  case (BuildFailed error)
  let ?u = "upload_finished p ''build/create''"
  have u: "ready_inv ?u" "readyState ?u = readyState p" "stopping ?u = stopping p"
    using advances_frame[OF assms, of ?u] by (simp_all add: upload_finished_state advances_def)
  from u assms have "advances p (build_failed_task p error)"
    by (auto simp: build_failed_task_def Let_def percy_close_def start_catch_def teardown_def
        ready_inv_def advances_def)
  with BuildFailed assms show ?thesis by (simp add: advances_refl)
next
  case Started
  with assms show ?thesis by (auto simp: start_done_def ready_inv_def advances_def)
next
  case (StartFailed code error)
  with assms show ?thesis by (auto simp: start_catch_def teardown_def ready_inv_def advances_def)
next
  case (SnapshotTaken task name)
  with assms show ?thesis by (auto simp: scheduleUpload_def ready_inv_def advances_def)
next
  case (CaptureDone task)
  have "advances p (snapshot_finished p (''snapshot/'' @ task))"
    using assms by (intro advances_frame) (simp_all add: snapshot_finished_state)
  with CaptureDone show ?thesis by simp
next
  case (UploadDone name answer)
  show ?thesis
  proof (cases "q_started (uploads p) (''upload/'' @ name)")
    case False
    with UploadDone assms show ?thesis by (simp add: advances_refl)
  next
    case True
    show ?thesis
    proof (cases "upload_task p name answer")
      case (Inl e)
      have "advances p (upload_finished (p\<lparr>thrown := thrown p @ [e]\<rparr>) (''upload/'' @ name))"
        using assms by (intro advances_frame) (simp_all add: upload_finished_state)
      with Inl UploadDone True show ?thesis by simp
    next
      case (Inr p')
      then have "readyState p' = readyState p \<and> stopping p' = stopping p"
        by (rule upload_task_state)
      then have "advances p (upload_finished p' (''upload/'' @ name))"
        using assms by (intro advances_frame) (simp_all add: upload_finished_state)
      with Inr UploadDone True show ?thesis by simp
    qed
  qed
qed

lemma advances_step:
  assumes "ready_inv p"
  shows "advances p (percy_step p a)"
proof -
  have 1: "advances p (percy_act p a)" using assms by (rule advances_act)
  then have "ready_inv (percy_act p a)" by (simp add: advances_def)
  then have "advances (percy_act p a) (stop_resume (percy_act p a))" by (rule advances_stop_resume)
  with 1 show ?thesis unfolding percy_step_def by (rule advances_trans)
qed

lemma advances_run:
  assumes "ready_inv p"
  shows "advances p (percy_run p acts)"
  using assms
proof (induction acts arbitrary: p)
  case Nil
  then show ?case by (simp add: advances_refl)
next
  case (Cons a acts)
  have 1: "advances p (percy_step p a)" using Cons.prems by (rule advances_step)
  then have "ready_inv (percy_step p a)" by (simp add: advances_def)
  then have "advances (percy_step p a) (percy_run (percy_step p a) acts)" by (rule Cons.IH)
  with 1 show ?case by (simp add: advances_trans[of p "percy_step p a"])
qed

lemma percy_run_append: "percy_run p (xs @ ys) = percy_run (percy_run p xs) ys"
  by (induction xs arbitrary: p) simp_all

lemma ready_inv_new: "ready_inv (new_Percy defer skip srv c)"
  by (simp add: ready_inv_def new_Percy_def)

lemma rank_inj: "rank a = rank b \<Longrightarrow> a = b"
  by (cases a; cases b) simp_all

lemma fc_push: "force_closed q \<Longrightarrow> q_push q k pr = q"
  by (simp add: force_closed_def q_push_def)

lemma fc_clear: "force_closed q \<Longrightarrow> q_clear q k = q"
  by (simp add: force_closed_def q_clear_def)

lemma fc_finish: "force_closed q \<Longrightarrow> q_finish q k = q"
  by (simp add: force_closed_def q_finish_def)

lemma fc_dispatch: "force_closed q \<Longrightarrow> q_dispatch q k = None"
  by (simp add: force_closed_def q_dispatch_def)

lemma fc_started: "force_closed q \<Longrightarrow> \<not> q_started q k"
  by (simp add: force_closed_def q_started_def)

lemma fc_run: "force_closed q \<Longrightarrow> force_closed (q_run q)"
  by (simp add: force_closed_def q_run_def)

lemma fc_stop: "force_closed q \<Longrightarrow> force_closed (q_stop q)"
  by (simp add: force_closed_def q_stop_def)

lemma fc_close: "force_closed q \<Longrightarrow> force_closed (q_close q f)"
  by (simp add: force_closed_def q_close_def)

lemma fc_close_force: "force_closed (q_close q True)"
  by (simp add: force_closed_def q_close_def)

lemma closed_push: "q_closed q \<Longrightarrow> q_push q k pr = q"
  by (simp add: q_push_def)

lemma closed_ops:
  "q_closed (q_close q f)"
  "q_closed q \<Longrightarrow> q_closed (q_finish q k)"
  "q_closed q \<Longrightarrow> q_closed (q_clear q k)"
  "q_closed q \<Longrightarrow> q_closed (q_run q)"
  "q_closed q \<Longrightarrow> q_closed (q_stop q)"
  by (simp_all add: q_close_def q_finish_def q_clear_def q_run_def q_stop_def)

lemma closed_dispatch: "q_dispatch q k = Some q' \<Longrightarrow> q_closed q' = q_closed q"
  by (auto simp: q_dispatch_def split: if_splits)

lemma bc_percy_close: "both_closed (percy_close p)"
  by (simp add: both_closed_def percy_close_def fc_close_force)

lemma bc_teardown: "both_closed p \<Longrightarrow> both_closed (teardown p)"
  by (simp add: both_closed_def teardown_def)

lemma bc_stop_finish: "both_closed p \<Longrightarrow> both_closed (stop_finish p)"
  by (simp add: both_closed_def stop_finish_def teardown_def Let_def split: option.splits)

lemma bc_stop_uploads:
  assumes "both_closed p"
  shows "both_closed (stop_uploads p)"
proof -
  let ?p = "p\<lparr>uploads := q_close (q_run (uploads p)) False\<rparr>"
  from assms have a: "both_closed ?p" by (simp add: both_closed_def fc_run fc_close)
  then have b: "both_closed (stop_finish ?p)" by (rule bc_stop_finish)
  have c: "both_closed (?p\<lparr>stopping := DrainUploads\<rparr>)"
    using a by (simp add: both_closed_def)
  from assms have d: "both_closed (stop_finish p)" by (rule bc_stop_finish)
  from b c d show ?thesis by (simp add: stop_uploads_def Let_def)
qed

lemma bc_stop_resume: "both_closed p \<Longrightarrow> both_closed (stop_resume p)"
  by (cases "stopping p") (simp_all add: stop_resume_def bc_stop_uploads bc_stop_finish)

lemma bc_stop:
  assumes "both_closed p"
  shows "both_closed (stop p force)"
proof -
  have w: "\<And>x. both_closed (p\<lparr>readyState := Some 2, snapshots := x\<rparr>) = both_closed (p\<lparr>snapshots := x\<rparr>)"
    by (simp add: both_closed_def)
  from assms have c: "q_close (snapshots p) False = snapshots p"
    by (simp add: both_closed_def force_closed_def q_close_def)
  have t: "q_tasks (snapshots p) = []" using assms by (simp add: both_closed_def force_closed_def)
  show ?thesis
  proof (cases "readyState p = Some 1")
    case True
    show ?thesis
    proof (cases force)
      case f: True
      let ?r = "(percy_close p)\<lparr>readyState := Some 2,
                logged := logged p @ [LogInfo ''Stopping percy...''],
                snapshots := q_close (snapshots (percy_close p)) False\<rparr>"
      have "both_closed ?r"
        using bc_percy_close[of p] by (simp add: both_closed_def fc_close)
      then have "both_closed (stop_uploads ?r)" by (rule bc_stop_uploads)
      with True f show ?thesis by (simp add: stop_running(2) stop_force_tasks)
    next
      case f: False
      let ?r = "p\<lparr>readyState := Some 2, snapshots := q_close (snapshots p) False\<rparr>"
      have "both_closed ?r" using assms by (simp add: both_closed_def fc_close)
      then have "both_closed (stop_uploads ?r)" by (rule bc_stop_uploads)
      with True f t show ?thesis by (simp add: stop_running(1))
    qed
  next
    case False
    have "stop p force = p \<or> stop p force = percy_close p"
    proof (cases "readyState p = Some 2")
      case True
      then show ?thesis by (simp add: stop_stopping)
    next
      case n2: False
      with False have "stop p force = p"
        by (cases "readyState p") (auto simp: stop_def falsy_state_def)
      then show ?thesis by simp
    qed
    with assms bc_percy_close[of p] show ?thesis by auto
  qed
qed

lemma bc_act:
  assumes "both_closed p"
  shows "both_closed (percy_act p a)"
proof -
  from assms have u: "force_closed (uploads p)" and s: "force_closed (snapshots p)"
    by (simp_all add: both_closed_def)
  show ?thesis
  proof (cases a)
    case CallStart
    with assms u show ?thesis by (simp add: start_def both_closed_def fc_push)
  next
    case (CallStop force)
    with assms show ?thesis by (simp add: bc_stop)
  next
    case (CallSnapshot name)
    with assms u s show ?thesis
      by (simp add: snapshot_def both_closed_def fc_push fc_clear)
  next
    case (Dispatch q key)
    with assms u s show ?thesis by (cases q) (simp_all add: fc_dispatch)
  next
    case (BuildCreated i number url)
    with assms u show ?thesis by (simp add: fc_started)
  next
    case (BuildFailed error)
    with assms u show ?thesis by (simp add: fc_started)
  next
    case Started
    with assms show ?thesis by (simp add: start_done_def both_closed_def)
  next
    case (StartFailed code error)
    with assms show ?thesis by (simp add: start_catch_def both_closed_def teardown_def)
  next
    case (SnapshotTaken task name)
    with assms s show ?thesis by (simp add: fc_started)
  next
    case (CaptureDone task)
    with assms s show ?thesis by (simp add: snapshot_finished_def fc_started)
  next
    case (UploadDone name answer)
    with assms u show ?thesis by (simp add: fc_started)
  qed
qed

lemma bc_step: "both_closed p \<Longrightarrow> both_closed (percy_step p a)"
  by (simp add: percy_step_def bc_act bc_stop_resume)





lemma failed_frame: "build p' = build p \<Longrightarrow> failed p' = failed p"
  by (simp add: failed_def)











lemma drain_inv_frame:
  assumes "drain_inv p" and "stopping p' = stopping p"
    and "q_closed (snapshots p) \<Longrightarrow> q_closed (snapshots p')"
    and "force_closed (snapshots p) \<Longrightarrow> force_closed (snapshots p')"
    and "list_ex is_upload_progress (logged p') \<Longrightarrow>
         list_ex is_upload_progress (logged p) \<or> stopping p = DrainUploads"
  shows "drain_inv p'"
  using assms unfolding drain_inv_def by metis

lemma not_upload_progress:
  "\<not> is_upload_progress (LogInfo s)" "\<not> is_upload_progress (LogWarn s)"
  "\<not> is_upload_progress (LogError s)" "\<not> is_upload_progress (progress ''Processing'' n)"
  by (simp_all add: progress_def)

lemma drain_inv_percy_close:
  assumes "drain_inv p"
  shows "drain_inv (percy_close p)"
  using assms
  by (rule drain_inv_frame) (simp_all add: percy_close_def fc_close_force closed_ops)

lemma logged_stop_finish:
  "list_ex is_upload_progress (logged (stop_finish p)) = list_ex is_upload_progress (logged p)"
  by (simp add: stop_finish_def teardown_def Let_def split: option.splits)

lemma snapshots_stop_finish: "snapshots (stop_finish p) = snapshots p"
  by (simp add: stop_finish_def teardown_def Let_def split: option.splits)

lemma drain_inv_stop_finish:
  assumes "drain_inv p"
  shows "drain_inv (stop_finish p)"
  using assms stop_finish_state[of p]
  by (simp add: drain_inv_def logged_stop_finish snapshots_stop_finish)

lemma drain_inv_closed:
  assumes "force_closed (snapshots p)"
  shows "drain_inv p"
  using assms by (simp add: drain_inv_def force_closed_def)

lemma drain_inv_stop_uploads:
  assumes "force_closed (snapshots p)"
  shows "drain_inv (stop_uploads p)"
proof -
  let ?p = "p\<lparr>uploads := q_close (q_run (uploads p)) False\<rparr>"
  have a: "drain_inv ?p" using assms by (intro drain_inv_closed) simp
  then have b: "drain_inv (stop_finish ?p)" by (rule drain_inv_stop_finish)
  have c: "drain_inv (?p\<lparr>stopping := DrainUploads\<rparr>)"
    using assms by (intro drain_inv_closed) simp
  have d: "drain_inv (stop_finish p)"
    using assms by (intro drain_inv_stop_finish drain_inv_closed)
  from b c d show ?thesis by (simp add: stop_uploads_def Let_def)
qed

lemma drain_inv_stop_resume:
  assumes "drain_inv p"
  shows "drain_inv (stop_resume p)"
proof (cases "stopping p")
  case NotDraining
  with assms show ?thesis by (simp add: stop_resume_def)
next
  case DrainSnapshots
  show ?thesis
  proof (cases "q_tasks (snapshots p) = []")
    case True
    with assms DrainSnapshots have "force_closed (snapshots p)"
      by (simp add: drain_inv_def force_closed_def)
    then have "drain_inv (stop_uploads p)" by (rule drain_inv_stop_uploads)
    with True DrainSnapshots show ?thesis by (simp add: stop_resume_def)
  next
    case False
    with assms DrainSnapshots show ?thesis by (simp add: stop_resume_def)
  qed
next
  case DrainUploads
  with assms show ?thesis by (simp add: stop_resume_def drain_inv_stop_finish)
qed

lemma drain_inv_stop:
  assumes "drain_inv p"
  shows "drain_inv (stop p force)"
proof -
  consider "readyState p = None \<or> readyState p = Some 0 \<or> readyState p = Some 3"
    | "readyState p = Some 2" | "readyState p = Some 1"
    | n where "readyState p = Some n" "3 < n"
    by (cases "readyState p") force+
  then show ?thesis
  proof cases
    case 1
    with assms show ?thesis by (simp add: stop_noop)
  next
    case 2
    with assms show ?thesis by (simp add: stop_stopping drain_inv_percy_close)
  next
    case 3
    show ?thesis
    proof (cases force)
      case True
      let ?r = "(percy_close p)\<lparr>readyState := Some 2,
                logged := logged p @ [LogInfo ''Stopping percy...''],
                snapshots := q_close (snapshots (percy_close p)) False\<rparr>"
      have "force_closed (snapshots ?r)"
        by (simp add: percy_close_def fc_close_force fc_close)
      then have "drain_inv (stop_uploads ?r)" by (rule drain_inv_stop_uploads)
      with True 3 show ?thesis by (simp add: stop_running(2) stop_force_tasks)
    next
      case False
      let ?r = "p\<lparr>readyState := Some 2, snapshots := q_close (snapshots p) False\<rparr>"
      show ?thesis
      proof (cases "q_tasks (snapshots p) = []")
        case True
        then have "force_closed (snapshots ?r)" by (simp add: force_closed_def q_close_def)
        then have "drain_inv (stop_uploads ?r)" by (rule drain_inv_stop_uploads)
        with True False 3 show ?thesis by (simp add: stop_running(1))
      next
        case ne: False
        from assms have "list_ex is_upload_progress (logged p) \<longrightarrow> force_closed (snapshots p)"
          by (simp add: drain_inv_def)
        then have "drain_inv (?r\<lparr>stopping := DrainSnapshots\<rparr>)"
          by (simp add: drain_inv_def closed_ops fc_close)
        with ne False 3 show ?thesis by (simp add: stop_running(1))
      qed
    qed
  next
    case 4
    then have "stop p force = p" by (simp add: stop_def falsy_state_def)
    with assms show ?thesis by simp
  qed
qed

lemma drain_inv_upload_finished:
  assumes "drain_inv p"
  shows "drain_inv (upload_finished p key)"
  using assms
  by (rule drain_inv_frame)
     (auto simp: upload_finished_def Let_def not_upload_progress split: if_splits)

lemma drain_inv_snapshot_finished:
  assumes "drain_inv p"
  shows "drain_inv (snapshot_finished p key)"
  using assms
  by (rule drain_inv_frame)
     (auto simp: snapshot_finished_def Let_def not_upload_progress closed_ops fc_finish
        split: if_splits)

lemma drain_inv_upload_task:
  assumes "drain_inv p" and "upload_task p name answer = Inr p'"
  shows "drain_inv p'"
proof (rule drain_inv_frame[OF assms(1)])
  show "stopping p' = stopping p" using assms(2) upload_task_state by blast
  show "q_closed (snapshots p) \<Longrightarrow> q_closed (snapshots p')"
    using assms(2)
    by (auto simp: upload_task_def Let_def percy_close_def closed_ops
        split: option.splits if_splits)
  show "force_closed (snapshots p) \<Longrightarrow> force_closed (snapshots p')"
    using assms(2)
    by (auto simp: upload_task_def Let_def percy_close_def fc_close_force
        split: option.splits if_splits)
  show "list_ex is_upload_progress (logged p') \<Longrightarrow>
         list_ex is_upload_progress (logged p) \<or> stopping p = DrainUploads"
    using assms(2)
    by (auto simp: upload_task_def Let_def percy_close_def
        split: option.splits if_splits)
qed

lemma drain_inv_act:
  assumes "drain_inv p"
  shows "drain_inv (percy_act p a)"
proof (cases a)
  case CallStart
  have "drain_inv (start p)"
    using assms by (rule drain_inv_frame) (auto simp: start_def split: if_splits)
  with CallStart show ?thesis by simp
next
  case (CallStop force)
  with assms show ?thesis by (simp add: drain_inv_stop)
next
  case (CallSnapshot name)
  show ?thesis
  proof (cases "readyState p = Some 1")
    case True
    let ?q = "p\<lparr>uploads := q_clear (uploads p) (''upload/'' @ name),
                 snapshots := q_push (snapshots p) (''snapshot/'' @ name) None\<rparr>"
    have "drain_inv ?q"
      using assms by (rule drain_inv_frame) (simp_all add: closed_push fc_push)
    with True CallSnapshot show ?thesis by (simp add: snapshot_def)
  next
    case False
    have "drain_inv (p\<lparr>thrown := thrown p @ [Error ''Not running'']\<rparr>)"
      using assms by (rule drain_inv_frame) simp_all
    with False CallSnapshot show ?thesis by (simp add: snapshot_def)
  qed
next
  case (Dispatch q key)
  show ?thesis
  proof (cases q)
    case Uploads
    have "\<And>x. drain_inv (p\<lparr>uploads := x\<rparr>)"
      using assms by (rule drain_inv_frame) simp_all
    with Uploads Dispatch assms show ?thesis by (simp split: option.splits)
  next
    case Snapshots
    show ?thesis
    proof (cases "q_dispatch (snapshots p) key")
      case None
      with Snapshots Dispatch assms show ?thesis by simp
    next
      case (Some q')
      have "drain_inv (p\<lparr>snapshots := q'\<rparr>)"
        using assms
      proof (rule drain_inv_frame)
        show "force_closed (snapshots p) \<Longrightarrow> force_closed (snapshots (p\<lparr>snapshots := q'\<rparr>))"
          using Some by (simp add: fc_dispatch)
        show "q_closed (snapshots p) \<Longrightarrow> q_closed (snapshots (p\<lparr>snapshots := q'\<rparr>))"
          using Some closed_dispatch by simp
      qed simp_all
      with Some Snapshots Dispatch show ?thesis by simp
    qed
  qed
next
  case (BuildCreated i number url)
  let ?q = "p\<lparr>build := Some \<lparr>build_id = i, build_number = number, build_url = url,
                          build_failed = False\<rparr>,
          uploads := q_run (uploads p)\<rparr>"
  have "drain_inv ?q" using assms by (rule drain_inv_frame) simp_all
  then have "drain_inv (upload_finished ?q ''build/create'')" by (rule drain_inv_upload_finished)
  with BuildCreated assms show ?thesis by (simp add: build_created_def)
next
  case (BuildFailed error)
  let ?u = "upload_finished p ''build/create''"
  have u: "drain_inv ?u" using assms by (rule drain_inv_upload_finished)
  have 1: "drain_inv (percy_close (?u\<lparr>logged := logged ?u @
                     [LogError ''Failed to create build'', LogError (message error)]\<rparr>))"
  proof (rule drain_inv_percy_close)
    show "drain_inv (?u\<lparr>logged := logged ?u @
                     [LogError ''Failed to create build'', LogError (message error)]\<rparr>)"
      using u by (rule drain_inv_frame) (simp_all add: not_upload_progress)
  qed
  have 2: "drain_inv (start_catch ?u [] error)"
    using u by (rule drain_inv_frame) (simp_all add: start_catch_def teardown_def)
  from u 1 2 BuildFailed assms show ?thesis
    by (simp add: build_failed_task_def Let_def)
next
  case Started
  have "drain_inv (start_done p)"
    using assms by (rule drain_inv_frame) (simp_all add: start_done_def not_upload_progress)
  with Started assms show ?thesis by simp
next
  case (StartFailed code error)
  have "drain_inv (start_catch p code error)"
    using assms by (rule drain_inv_frame) (simp_all add: start_catch_def teardown_def)
  with StartFailed assms show ?thesis by simp
next
  case (SnapshotTaken task name)
  have "drain_inv (scheduleUpload (p\<lparr>logged := logged p @ [LogInfo (''Snapshot taken: '' @ name)]\<rparr>) name)"
    using assms by (rule drain_inv_frame) (simp_all add: scheduleUpload_def not_upload_progress)
  with SnapshotTaken assms show ?thesis by simp
next
  case (CaptureDone task)
  with assms show ?thesis by (simp add: drain_inv_snapshot_finished)
next
  case (UploadDone name answer)
  show ?thesis
  proof (cases "upload_task p name answer")
    case (Inl e)
    have "drain_inv (p\<lparr>thrown := thrown p @ [e]\<rparr>)"
      using assms by (rule drain_inv_frame) simp_all
    then have "drain_inv (upload_finished (p\<lparr>thrown := thrown p @ [e]\<rparr>) (''upload/'' @ name))"
      by (rule drain_inv_upload_finished)
    with Inl UploadDone assms show ?thesis by simp
  next
    case (Inr p')
    with assms have "drain_inv p'" by (rule drain_inv_upload_task)
    then have "drain_inv (upload_finished p' (''upload/'' @ name))"
      by (rule drain_inv_upload_finished)
    with Inr UploadDone assms show ?thesis by simp
  qed
qed

lemma drain_inv_step: "drain_inv p \<Longrightarrow> drain_inv (percy_step p a)"
  by (simp add: percy_step_def drain_inv_act drain_inv_stop_resume)

lemma drain_inv_run: "drain_inv p \<Longrightarrow> drain_inv (percy_run p acts)"
  by (induction acts arbitrary: p) (simp_all add: drain_inv_step)

lemma drain_inv_new: "drain_inv (new_Percy d s srv c)"
  by (simp add: drain_inv_def new_Percy_def)

text \<open>The definitions that evaluate a run of the orchestrator.\<close>

lemmas c7_eval =
  new_Percy_def percy_step_def start_def new_Queue_def q_push_def
  q_dispatch_def q_stop_def q_run_def q_started_def q_finish_def q_clear_def q_close_def
  build_created_def upload_finished_def snapshot_finished_def stop_resume_def
  start_done_def snapshot_def scheduleUpload_def startsWith_def stop_def falsy_state_def
  stop_uploads_def stop_finish_def teardown_def upload_task_def progress_def Let_def

lemma c7_after_stop:
  "percy_run (new_Percy False False False None) c7_queued =
     \<lparr>readyState = Some 2, deferUploads = False, skipUploads = False, server = False,
       build = Some \<lparr>build_id = ''123'', build_number = ''7'',
                     build_url = ''https://percy.io/builds/7'', build_failed = False\<rparr>,
       uploads = \<lparr>q_closed = False, q_running = True, q_concurrency = 5, q_tasks = []\<rparr>,
       snapshots = \<lparr>q_closed = True, q_running = True, q_concurrency = 5,
         q_tasks = [(''snapshot/a'', False), (''snapshot/b'', False), (''snapshot/c'', False)]\<rparr>,
       stopping = DrainSnapshots,
       logged = [LogInfo ''Percy has started!''],
       effects = [], thrown = []\<rparr>"
  by (simp add: c7_queued_def c7_eval)

lemma c7_after_captures_state:
  "percy_run (new_Percy False False False None) (c7_queued @ c7_captures) =
     \<lparr>readyState = Some 2, deferUploads = False, skipUploads = False, server = False,
       build = Some \<lparr>build_id = ''123'', build_number = ''7'',
                     build_url = ''https://percy.io/builds/7'', build_failed = False\<rparr>,
       uploads = \<lparr>q_closed = True, q_running = True, q_concurrency = 5,
         q_tasks = [(''upload/a'', False), (''upload/b'', False), (''upload/c'', False)]\<rparr>,
       snapshots = \<lparr>q_closed = True, q_running = True, q_concurrency = 5, q_tasks = []\<rparr>,
       stopping = DrainUploads,
       logged = [LogInfo ''Percy has started!'',
         LogInfo ''Snapshot taken: a'', LogProgress ''Processing'' 2 True,
         LogInfo ''Snapshot taken: b'', LogProgress ''Processing'' 1 True,
         LogInfo ''Snapshot taken: c'', LogProgress ''Processing'' 0 False],
       effects = [], thrown = []\<rparr>"
  unfolding percy_run_append c7_after_stop
  by (simp add: c7_captures_def c7_eval)

text \<open>
  Claim C5. Along every sequence of calls and events of an orchestrator, from its
  construction on, the readiness state is \<open>null\<close>, 0, 1, 2 or 3 and never goes back
  in that order, so that a state once left is not entered again. \<open>start()\<close> does nothing
  unless the state is \<open>null\<close>; \<open>stop()\<close> does nothing while it is \<open>null\<close>; \<open>snapshot()\<close>
  throws "Not running" in every state but 1.
\<close>

theorem C5_readiness:
  "(\<forall>acts bs.
      rank (readyState (percy_run (new_Percy defer skip srv c) acts)) \<le>
      rank (readyState (percy_run (new_Percy defer skip srv c) (acts @ bs)))) \<and>
   (\<forall>acts bs cs.
      readyState (percy_run (new_Percy defer skip srv c) (acts @ bs @ cs)) =
      readyState (percy_run (new_Percy defer skip srv c) acts) \<longrightarrow>
      readyState (percy_run (new_Percy defer skip srv c) (acts @ bs)) =
      readyState (percy_run (new_Percy defer skip srv c) acts)) \<and>
   (\<forall>acts. readyState (percy_run (new_Percy defer skip srv c) acts)
      \<in> {None, Some 0, Some 1, Some 2, Some 3}) \<and>
   (readyState p \<noteq> None \<longrightarrow> start p = p) \<and>
   (readyState p = None \<longrightarrow> stop p force = p) \<and>
   (readyState p \<noteq> Some 1 \<longrightarrow> snapshot p name = Inl (Error ''Not running''))"
proof -
  let ?P = "new_Percy defer skip srv c"
  have inv: "\<And>acts. ready_inv (percy_run ?P acts)"
    using advances_run[OF ready_inv_new] by (simp add: advances_def)
  have mono: "\<And>acts bs. rank (readyState (percy_run ?P acts)) \<le>
      rank (readyState (percy_run ?P (acts @ bs)))"
  proof -
    fix acts bs
    have "advances (percy_run ?P acts) (percy_run (percy_run ?P acts) bs)"
      using inv by (rule advances_run)
    then show "rank (readyState (percy_run ?P acts)) \<le> rank (readyState (percy_run ?P (acts @ bs)))"
      by (simp add: advances_def percy_run_append)
  qed
  have noback: "\<And>acts bs cs.
      readyState (percy_run ?P (acts @ bs @ cs)) = readyState (percy_run ?P acts) \<Longrightarrow>
      readyState (percy_run ?P (acts @ bs)) = readyState (percy_run ?P acts)"
  proof -
    fix acts bs cs
    assume e: "readyState (percy_run ?P (acts @ bs @ cs)) = readyState (percy_run ?P acts)"
    have 1: "rank (readyState (percy_run ?P acts)) \<le> rank (readyState (percy_run ?P (acts @ bs)))"
      by (rule mono)
    have "rank (readyState (percy_run ?P (acts @ bs))) \<le>
          rank (readyState (percy_run ?P ((acts @ bs) @ cs)))"
      by (rule mono)
    with e have 2: "rank (readyState (percy_run ?P (acts @ bs))) \<le> rank (readyState (percy_run ?P acts))"
      by simp
    from 1 2 have "rank (readyState (percy_run ?P (acts @ bs))) = rank (readyState (percy_run ?P acts))"
      by simp
    then show "readyState (percy_run ?P (acts @ bs)) = readyState (percy_run ?P acts)"
      by (rule rank_inj)
  qed
  have states: "\<And>acts. readyState (percy_run ?P acts) \<in> {None, Some 0, Some 1, Some 2, Some 3}"
    using inv by (simp add: ready_inv_def)
  have a: "readyState p \<noteq> None \<longrightarrow> start p = p" by (simp add: start_def)
  have b: "readyState p = None \<longrightarrow> stop p force = p" by (simp add: stop_noop)
  have d: "readyState p \<noteq> Some 1 \<longrightarrow> snapshot p name = Inl (Error ''Not running'')"
    by (simp add: snapshot_def)
  from mono noback states a b d show ?thesis by blast
qed

theorem C5_readiness_witness:
  "readyState (percy_run c5_percy [CallStart, CallStop True, CallStart]) = Some 0 \<and>
   start (start c5_percy) = start c5_percy \<and>
   stop c5_percy True = c5_percy \<and>
   snapshot c5_percy ''home'' = Inl (Error ''Not running'')"
proof -
  have s: "readyState (start c5_percy) \<noteq> None" "readyState c5_percy = None"
    "readyState c5_percy \<noteq> Some 1"
    by (simp_all add: c5_percy_def new_Percy_def start_def)
  from s C5_readiness[of False False True None "start c5_percy" True "''home''"]
  have 1: "start (start c5_percy) = start c5_percy" by blast
  from s C5_readiness[of False False True None c5_percy True "''home''"]
  have 2: "stop c5_percy True = c5_percy"
    and 3: "snapshot c5_percy ''home'' = Inl (Error ''Not running'')" by blast+
  have 4: "readyState (percy_run c5_percy [CallStart, CallStop True, CallStart]) = Some 0"
    by (simp add: c5_percy_def new_Percy_def start_def percy_step_def stop_def falsy_state_def
        stop_resume_def q_push_def new_Queue_def)
  from 1 2 3 4 show ?thesis by simp
qed

text \<open>
  Claim C10. While the state is 0, as \<open>start()\<close> leaves it, \<open>stop(force)\<close> returns the
  orchestrator as it is, with or without \<open>force\<close>: no queue, server or browser is
  closed and the state stays 0.
\<close>

theorem C10_stop_while_starting:
  "(readyState p = Some 0 \<longrightarrow> stop p force = p) \<and>
   (readyState p = Some 0 \<and> ready_inv p \<longrightarrow> percy_step p (CallStop force) = p) \<and>
   readyState (start (new_Percy defer skip srv c)) = Some 0 \<and>
   ready_inv (start (new_Percy defer skip srv c))"
proof (intro conjI impI)
  assume "readyState p = Some 0"
  then show "stop p force = p" by (simp add: stop_noop)
next
  assume a: "readyState p = Some 0 \<and> ready_inv p"
  then have "stopping p = NotDraining" by (auto simp: ready_inv_def)
  with a show "percy_step p (CallStop force) = p"
    by (simp add: percy_step_def stop_noop stop_resume_def)
next
  show "readyState (start (new_Percy defer skip srv c)) = Some 0"
    by (simp add: start_def new_Percy_def)
  show "ready_inv (start (new_Percy defer skip srv c))"
    by (simp add: start_def new_Percy_def ready_inv_def)
qed

theorem C10_stop_while_starting_witness:
  "readyState c10_percy = Some 0 \<and> stop c10_percy True = c10_percy \<and>
   stop c10_percy False = c10_percy \<and>
   percy_step c10_percy (CallStop True) = c10_percy \<and>
   effects (percy_step c10_percy (CallStop True)) = [] \<and>
   q_closed (uploads (percy_step c10_percy (CallStop True))) = False \<and>
   q_closed (snapshots (percy_step c10_percy (CallStop True))) = False"
proof -
  have r: "readyState c10_percy = Some 0" and i: "ready_inv c10_percy"
    unfolding c10_percy_def using C10_stop_while_starting[of c10_percy True True False True "Some 2"]
    by blast+
  from r i C10_stop_while_starting[of c10_percy True]
  have 1: "stop c10_percy True = c10_percy" "percy_step c10_percy (CallStop True) = c10_percy"
    by blast+
  from r C10_stop_while_starting[of c10_percy False]
  have 2: "stop c10_percy False = c10_percy" by blast
  have 3: "effects c10_percy = []" "q_closed (uploads c10_percy) = False"
    "q_closed (snapshots c10_percy) = False"
    by (simp_all add: c10_percy_def start_def new_Percy_def q_push_def new_Queue_def q_stop_def)
  from r 1 2 3 show ?thesis by simp
qed

text \<open>
  Claim C9. \<open>getResource\<close> answers a url with the root resource when there is one (a
  DOM snapshot was supplied) and the url is its url; else with the entry of the task's
  own map; else with the entry of the shared cache. \<open>addResource\<close> stores a resource
  that is not flagged as root in both maps, under its url, where \<open>getResource\<close> then
  finds it; a resource flagged as root is stored in neither.
\<close>

theorem C9_hooks:
  "(root = Some r \<and> url = res_url r \<longrightarrow> getResource root resources cache url = Some r) \<and>
   (root = None \<or> (\<exists>r. root = Some r \<and> url \<noteq> res_url r) \<longrightarrow>
      (\<forall>x. resources url = Some x \<longrightarrow> getResource root resources cache url = Some x) \<and>
      (resources url = None \<longrightarrow> getResource root resources cache url = cache url)) \<and>
   (\<not> res_root n \<longrightarrow>
      addResource n (resources, cache) =
        (resources(res_url n \<mapsto> n), cache(res_url n \<mapsto> n)) \<and>
      getResource None (fst (addResource n (resources, cache))) Map.empty (res_url n) = Some n \<and>
      getResource None Map.empty (snd (addResource n (resources, cache))) (res_url n) = Some n) \<and>
   (res_root n \<longrightarrow> addResource n (resources, cache) = (resources, cache)) \<and>
   capture_root create u None = None \<and>
   capture_root create u (Some []) = None \<and>
   (d \<noteq> [] \<longrightarrow> capture_root create u (Some d) = Some (create u d))"
  by (auto simp: getResource_def addResource_def capture_root_def)

theorem C9_hooks_witness:
  "getResource (Some c9_root) [''http://localhost/'' \<mapsto> c9_style] Map.empty ''http://localhost/''
     = Some c9_root \<and>
   getResource (Some c9_root) [''http://localhost/a.css'' \<mapsto> c9_style] Map.empty
     ''http://localhost/a.css'' = Some c9_style \<and>
   getResource None Map.empty [''http://localhost/a.css'' \<mapsto> c9_style]
     ''http://localhost/a.css'' = Some c9_style \<and>
   addResource c9_root (Map.empty, Map.empty) = (Map.empty, Map.empty) \<and>
   addResource c9_style (Map.empty, Map.empty) =
     ([''http://localhost/a.css'' \<mapsto> c9_style], [''http://localhost/a.css'' \<mapsto> c9_style])"
proof -
  have u: "res_url c9_root = ''http://localhost/''" "res_url c9_style = ''http://localhost/a.css''"
    "res_root c9_root" "\<not> res_root c9_style"
    by (simp_all add: c9_root_def c9_style_def)
  have 1: "getResource (Some c9_root) [''http://localhost/'' \<mapsto> c9_style] Map.empty
      ''http://localhost/'' = Some c9_root"
    using C9_hooks[of "Some c9_root" c9_root "''http://localhost/''"
        "[''http://localhost/'' \<mapsto> c9_style]" Map.empty] u by simp
  have 2: "getResource (Some c9_root) [''http://localhost/a.css'' \<mapsto> c9_style] Map.empty
     ''http://localhost/a.css'' = Some c9_style"
    using C9_hooks[of "Some c9_root" c9_root "''http://localhost/a.css''"
        "[''http://localhost/a.css'' \<mapsto> c9_style]" Map.empty] u by simp
  have 3: "getResource None Map.empty [''http://localhost/a.css'' \<mapsto> c9_style]
     ''http://localhost/a.css'' = Some c9_style"
    using C9_hooks[of None c9_root "''http://localhost/a.css''" Map.empty
        "[''http://localhost/a.css'' \<mapsto> c9_style]"] by simp
  have 4: "addResource c9_root (Map.empty, Map.empty) = (Map.empty, Map.empty)"
    using C9_hooks[of None c9_root "[]" Map.empty Map.empty c9_root] u by simp
  have 5: "addResource c9_style (Map.empty, Map.empty) =
     ([''http://localhost/a.css'' \<mapsto> c9_style], [''http://localhost/a.css'' \<mapsto> c9_style])"
    using C9_hooks[of None c9_root "[]" Map.empty Map.empty c9_style] u by simp
  from 1 2 3 4 5 show ?thesis by simp
qed



text \<open>
  Claim C7. \<open>stop()\<close> without force in state 1 closes the snapshot queue; if it holds
  tasks, \<open>stop()\<close> waits there and the uploads are left as they are. Each capture that
  ends while it waits reports the number of tasks left; with the last one, unless
  uploads are skipped, the upload queue is resumed and closed and \<open>stop()\<close> waits for
  it, each upload that ends reporting the number left. Along every sequence of calls
  and events of an orchestrator, whenever \<open>stop()\<close> waits for the uploads or a progress
  of the uploads is in the log, the snapshot queue is closed and holds no task.
\<close>

theorem C7_stop_drains:
  "(readyState p = Some 1 \<and> q_tasks (snapshots p) \<noteq> [] \<longrightarrow>
      stop p False =
        p\<lparr>readyState := Some 2, snapshots := q_close (snapshots p) False,
          stopping := DrainSnapshots\<rparr>) \<and>
   (readyState p = Some 1 \<and> q_tasks (snapshots p) = [] \<and> \<not> skipUploads p \<and>
    q_tasks (uploads p) \<noteq> [] \<longrightarrow>
      stop p False =
        p\<lparr>readyState := Some 2, snapshots := q_close (snapshots p) False,
          uploads := q_close (q_run (uploads p)) False, stopping := DrainUploads\<rparr>) \<and>
   (stopping p = DrainSnapshots \<and> q_started (snapshots p) (''snapshot/'' @ task) \<and>
    q_tasks (q_finish (snapshots p) (''snapshot/'' @ task)) \<noteq> [] \<longrightarrow>
      percy_step p (CaptureDone task) =
        p\<lparr>snapshots := q_finish (snapshots p) (''snapshot/'' @ task),
          logged := logged p @
            [LogProgress ''Processing''
               (length (q_tasks (q_finish (snapshots p) (''snapshot/'' @ task)))) True]\<rparr>) \<and>
   (stopping p = DrainSnapshots \<and> q_started (snapshots p) (''snapshot/'' @ task) \<and>
    q_tasks (q_finish (snapshots p) (''snapshot/'' @ task)) = [] \<and> \<not> skipUploads p \<and>
    q_tasks (uploads p) \<noteq> [] \<longrightarrow>
      percy_step p (CaptureDone task) =
        p\<lparr>snapshots := q_finish (snapshots p) (''snapshot/'' @ task),
          logged := logged p @ [LogProgress ''Processing'' 0 False],
          uploads := q_close (q_run (uploads p)) False,
          stopping := DrainUploads\<rparr>) \<and>
   (stopping p = DrainUploads \<and> q_started (uploads p) (''upload/'' @ name) \<and>
    build p \<noteq> None \<and> q_tasks (q_finish (uploads p) (''upload/'' @ name)) \<noteq> [] \<longrightarrow>
      percy_step p (UploadDone name None) =
        p\<lparr>effects := effects p @ [SendSnapshot name],
          uploads := q_finish (uploads p) (''upload/'' @ name),
          logged := logged p @
            [LogProgress ''Uploading''
               (length (q_tasks (q_finish (uploads p) (''upload/'' @ name)))) True]\<rparr>) \<and>
   (\<forall>acts.
      stopping (percy_run (new_Percy deferred skipped srv c) acts) = DrainUploads \<or>
      list_ex is_upload_progress (logged (percy_run (new_Percy deferred skipped srv c) acts)) \<longrightarrow>
        q_tasks (snapshots (percy_run (new_Percy deferred skipped srv c) acts)) = [] \<and>
        q_closed (snapshots (percy_run (new_Percy deferred skipped srv c) acts)))"
proof (intro conjI impI allI)
  assume "readyState p = Some 1 \<and> q_tasks (snapshots p) \<noteq> []"
  then show "stop p False =
        p\<lparr>readyState := Some 2, snapshots := q_close (snapshots p) False,
          stopping := DrainSnapshots\<rparr>"
    by (simp add: stop_running(1))
next
  assume a: "readyState p = Some 1 \<and> q_tasks (snapshots p) = [] \<and> \<not> skipUploads p \<and>
    q_tasks (uploads p) \<noteq> []"
  then have "q_tasks (q_close (q_run (uploads p)) False) \<noteq> []"
    by (simp add: q_close_def q_run_def)
  with a show "stop p False =
        p\<lparr>readyState := Some 2, snapshots := q_close (snapshots p) False,
          uploads := q_close (q_run (uploads p)) False, stopping := DrainUploads\<rparr>"
    by (simp add: stop_running(1) stop_uploads_def Let_def)
next
  assume "stopping p = DrainSnapshots \<and> q_started (snapshots p) (''snapshot/'' @ task) \<and>
    q_tasks (q_finish (snapshots p) (''snapshot/'' @ task)) \<noteq> []"
  then show "percy_step p (CaptureDone task) =
        p\<lparr>snapshots := q_finish (snapshots p) (''snapshot/'' @ task),
          logged := logged p @
            [LogProgress ''Processing''
               (length (q_tasks (q_finish (snapshots p) (''snapshot/'' @ task)))) True]\<rparr>"
    by (simp add: percy_step_def snapshot_finished_def Let_def progress_def stop_resume_def)
next
  assume a: "stopping p = DrainSnapshots \<and> q_started (snapshots p) (''snapshot/'' @ task) \<and>
    q_tasks (q_finish (snapshots p) (''snapshot/'' @ task)) = [] \<and> \<not> skipUploads p \<and>
    q_tasks (uploads p) \<noteq> []"
  then have "q_tasks (q_close (q_run (uploads p)) False) \<noteq> []"
    by (simp add: q_close_def q_run_def)
  with a show "percy_step p (CaptureDone task) =
        p\<lparr>snapshots := q_finish (snapshots p) (''snapshot/'' @ task),
          logged := logged p @ [LogProgress ''Processing'' 0 False],
          uploads := q_close (q_run (uploads p)) False,
          stopping := DrainUploads\<rparr>"
    by (simp add: percy_step_def snapshot_finished_def Let_def progress_def stop_resume_def
        stop_uploads_def)
next
  assume a: "stopping p = DrainUploads \<and> q_started (uploads p) (''upload/'' @ name) \<and>
    build p \<noteq> None \<and> q_tasks (q_finish (uploads p) (''upload/'' @ name)) \<noteq> []"
  then obtain b where b: "build p = Some b" by blast
  with a show "percy_step p (UploadDone name None) =
        p\<lparr>effects := effects p @ [SendSnapshot name],
          uploads := q_finish (uploads p) (''upload/'' @ name),
          logged := logged p @
            [LogProgress ''Uploading''
               (length (q_tasks (q_finish (uploads p) (''upload/'' @ name)))) True]\<rparr>"
    by (simp add: percy_step_def upload_task_def upload_finished_def Let_def progress_def
        stop_resume_def)
next
  fix acts
  let ?P = "percy_run (new_Percy deferred skipped srv c) acts"
  assume a: "stopping ?P = DrainUploads \<or> list_ex is_upload_progress (logged ?P)"
  have "drain_inv ?P" using drain_inv_new by (rule drain_inv_run)
  with a have "force_closed (snapshots ?P)" by (simp add: drain_inv_def)
  then show "q_tasks (snapshots ?P) = []" "q_closed (snapshots ?P)"
    by (simp_all add: force_closed_def)
qed

theorem C7_stop_drains_witness:
  "logged (percy_run (new_Percy False False False None)
             (c7_queued @ c7_captures @ c7_uploads)) =
     [LogInfo ''Percy has started!'',
      LogInfo ''Snapshot taken: a'', LogProgress ''Processing'' 2 True,
      LogInfo ''Snapshot taken: b'', LogProgress ''Processing'' 1 True,
      LogInfo ''Snapshot taken: c'', LogProgress ''Processing'' 0 False,
      LogProgress ''Uploading'' 2 True, LogProgress ''Uploading'' 1 True,
      LogProgress ''Uploading'' 0 False,
      LogInfo ''Finalized build #7: https://percy.io/builds/7''] \<and>
   readyState (percy_run (new_Percy False False False None)
             (c7_queued @ c7_captures @ c7_uploads)) = Some 3 \<and>
   stopping (percy_run (new_Percy False False False None) (c7_queued @ c7_captures)) =
     DrainUploads \<and>
   q_tasks (snapshots (percy_run (new_Percy False False False None)
             (c7_queued @ c7_captures))) = []"
proof -
  let ?A = "percy_run (new_Percy False False False None) (c7_queued @ c7_captures)"
  have s: "stopping ?A = DrainUploads" by (simp add: c7_after_captures_state)
  with C7_stop_drains[where deferred=False and skipped=False and srv=False and c=None]
  have t: "q_tasks (snapshots ?A) = []" by blast
  have e: "percy_run (new_Percy False False False None) (c7_queued @ c7_captures @ c7_uploads) =
      percy_run ?A c7_uploads"
    using percy_run_append[of _ "c7_queued @ c7_captures" c7_uploads] by simp
  have l: "logged (percy_run ?A c7_uploads) =
     [LogInfo ''Percy has started!'',
      LogInfo ''Snapshot taken: a'', LogProgress ''Processing'' 2 True,
      LogInfo ''Snapshot taken: b'', LogProgress ''Processing'' 1 True,
      LogInfo ''Snapshot taken: c'', LogProgress ''Processing'' 0 False,
      LogProgress ''Uploading'' 2 True, LogProgress ''Uploading'' 1 True,
      LogProgress ''Uploading'' 0 False,
      LogInfo ''Finalized build #7: https://percy.io/builds/7''] \<and>
    readyState (percy_run ?A c7_uploads) = Some 3"
    unfolding c7_after_captures_state
    by (simp add: c7_uploads_def c7_eval)
  from s t e l show ?thesis by simp
qed

end
